theory Spec2Isabelle
  imports Complex_Main
begin

section \<open>Data model (backend/models/session.js)\<close>

text \<open>
  The match sub-document and the session document of the Mongoose schema, restricted to the
  fields the match routes and the \<open>stats\<close> virtual read or write. The \<open>_id\<close> of a
  match is an opaque identifier, a natural number here.
\<close>

subsection \<open>Strings\<close>

text \<open>
  A JavaScript string is a sequence of UTF-16 code units, modelled as a list of natural
  numbers; \<open>js\<close> gives the code units of an ASCII literal of the source.
\<close>

type_synonym jsstring = "nat list"

definition js :: "char list \<Rightarrow> jsstring" where
  "js s = map of_char s"

subsection \<open>Numbers\<close>

text \<open>
  A JavaScript number is an IEEE 754 double. The finite doubles are modelled as the
  rationals they denote, and every arithmetic operation of the source rounds its exact
  result to a double: to the nearest one, to the one with an even significand on a tie.
  \<open>exponent x\<close> is the binary exponent of the double format for \<open>x\<close>, between -1022
  (also for the subnormal numbers) and 1023; the doubles with that exponent are the
  multiples of \<open>2 powi (exponent x - 52)\<close>. The infinities, NaN and the negative zero
  are not represented: JSON has no literal for them, and no operation of the routes or of
  the statistics overflows on finite doubles (the quotient in the win rate is taken only
  of a positive length). The length of an array is an integer below \<open>2^32\<close>, which is a
  double.
\<close>

definition round_even :: "rat \<Rightarrow> int" where
  "round_even z =
     (let f = \<lfloor>z\<rfloor>; r = z - of_int f
      in if r < 1 / 2 then f else if 1 / 2 < r then f + 1 else if even f then f else f + 1)"

fun expo_from :: "nat \<Rightarrow> rat \<Rightarrow> int" where
  "expo_from 0 a = - 1022"
| "expo_from (Suc n) a = (if 2 powi (int n - 1021) \<le> a then int n - 1021 else expo_from n a)"

definition exponent :: "rat \<Rightarrow> int" where
  "exponent x = expo_from 2045 \<bar>x\<bar>"

definition fl :: "rat \<Rightarrow> rat" where
  "fl x = of_int (round_even (x / 2 powi (exponent x - 52))) * 2 powi (exponent x - 52)"


definition js_add :: "rat \<Rightarrow> rat \<Rightarrow> rat" where
  "js_add x y = fl (x + y)"

definition js_sub :: "rat \<Rightarrow> rat \<Rightarrow> rat" where
  "js_sub x y = fl (x - y)"

definition js_mul :: "rat \<Rightarrow> rat \<Rightarrow> rat" where
  "js_mul x y = fl (x * y)"

definition js_div :: "rat \<Rightarrow> rat \<Rightarrow> rat" where
  "js_div x y = fl (x / y)"

subsection \<open>Documents\<close>

record match =
  mid :: nat
  deck :: jsstring
  opp :: jsstring
  result :: jsstring
  turn :: jsstring
  pointsBefore :: rat
  pointsAfter :: rat
  customPointsAfter :: "rat option"

record session =
  user :: nat
  matches :: "match list"
  pointsFormula :: jsstring
  pointsStart :: rat

text \<open>
  The body of a request: each field is absent (\<open>undefined\<close>) or present. A jsstring is
  truthy in JavaScript when it is present and not empty; a number is compared with
  \<open>undefined\<close>, so that an override of 0 counts as present.
\<close>

record body =
  req_deck :: "jsstring option"
  req_opp :: "jsstring option"
  req_result :: "jsstring option"
  req_turn :: "jsstring option"
  req_customPointsAfter :: "rat option"

datatype error = BadRequest | NotFound | ServerError

subsection \<open>Schema setters and validators\<close>

text \<open>
  \<open>trim: true\<close> on \<open>deck\<close> and \<open>opp\<close>: the value goes through
  \<open>String.prototype.trim\<close> when it is assigned. That removes, at both ends, the code
  units of the WhiteSpace and LineTerminator productions of the language: tab, line feed,
  vertical tab, form feed, carriage return, space, U+00A0, U+1680, U+2000 to U+200A,
  U+2028, U+2029, U+202F, U+205F, U+3000 and U+FEFF. \<open>required\<close> on a string rejects
  the empty string; \<open>enum\<close> rejects a value outside the list. The document is validated
  when it is saved.
\<close>

definition is_ws :: "nat \<Rightarrow> bool" where
  "is_ws c =
     (c \<in> set [0x0009, 0x000A, 0x000B, 0x000C, 0x000D, 0x0020, 0x00A0, 0x1680,
               0x2000, 0x2001, 0x2002, 0x2003, 0x2004, 0x2005, 0x2006, 0x2007,
               0x2008, 0x2009, 0x200A, 0x2028, 0x2029, 0x202F, 0x205F, 0x3000, 0xFEFF])"

definition trim :: "jsstring \<Rightarrow> jsstring" where
  "trim s = rev (dropWhile is_ws (rev (dropWhile is_ws s)))"

definition match_valid :: "match \<Rightarrow> bool" where
  "match_valid m =
     (deck m \<noteq> [] \<and> opp m \<noteq> [] \<and>
      result m \<in> set [js ''Win'', js ''Loss''] \<and> turn m \<in> set [js ''1st'', js ''2nd''])"

definition session_valid :: "session \<Rightarrow> bool" where
  "session_valid s =
     (list_all match_valid (matches s) \<and> pointsFormula s \<in> set [js ''rated'', js ''dc''])"

section \<open>Points calculation (backend/routes/matches.js)\<close>

text \<open>
  The formula is written out three times in the source (lines 42-51, 134-147 and 206-219),
  each time with the same branches; \<open>calc_points\<close> is that expression. Any formula other
  than \<open>rated\<close> takes the DC branch, any result other than \<open>Win\<close> the loss branch.
  The constants 7, 1, 15 and 0.5 are doubles.
\<close>

definition calc_points :: "jsstring \<Rightarrow> jsstring \<Rightarrow> rat \<Rightarrow> rat" where
  "calc_points formula res lastPoints =
     (if formula = js ''rated'' then
        (if res = js ''Win'' then js_add lastPoints 7 else js_sub lastPoints 7)
      else
        (if res = js ''Win'' then js_add lastPoints 1
         else (if lastPoints < 15 then js_sub lastPoints (1 / 2) else js_sub lastPoints 1)))"

subsection \<open>POST /:id/matches\<close>

definition last_points :: "session \<Rightarrow> rat" where
  "last_points s =
     (if matches s = [] then pointsStart s else pointsAfter (last (matches s)))"

definition new_points :: "session \<Rightarrow> jsstring \<Rightarrow> rat option \<Rightarrow> rat" where
  "new_points s res custom =
     (case custom of
        Some c \<Rightarrow> c
      | None \<Rightarrow> calc_points (pointsFormula s) res (last_points s))"

definition matchData :: "session \<Rightarrow> nat \<Rightarrow> jsstring \<Rightarrow> jsstring \<Rightarrow> jsstring \<Rightarrow> jsstring \<Rightarrow> rat option \<Rightarrow> match" where
  "matchData s new_id d p res t custom =
     \<lparr> mid = new_id, deck = trim d, opp = trim p, result = res, turn = t,
       pointsBefore = last_points s, pointsAfter = new_points s res custom,
       customPointsAfter = custom \<rparr>"

definition add_match :: "nat \<Rightarrow> jsstring \<Rightarrow> jsstring \<Rightarrow> jsstring \<Rightarrow> jsstring \<Rightarrow> rat option \<Rightarrow> session \<Rightarrow> session" where
  "add_match new_id d p res t custom s =
     s\<lparr>matches := matches s @ [matchData s new_id d p res t custom]\<rparr>"

subsection \<open>PUT /:sessionId/matches/:matchId\<close>

text \<open>
  The field updates of lines 117-124, on the match at \<open>matchIndex\<close>:
  \<open>if (v) m.field = v\<close> assigns when \<open>v\<close> is truthy, through the setter of the schema.
\<close>

definition assign :: "(jsstring \<Rightarrow> jsstring) \<Rightarrow> jsstring option \<Rightarrow> jsstring \<Rightarrow> jsstring" where
  "assign setter v old =
     (case v of None \<Rightarrow> old | Some x \<Rightarrow> (if x = [] then old else setter x))"

definition set_fields :: "body \<Rightarrow> match \<Rightarrow> match" where
  "set_fields b m =
     (let m1 = m\<lparr>deck := assign trim (req_deck b) (deck m)\<rparr>;
          m2 = m1\<lparr>opp := assign trim (req_opp b) (opp m1)\<rparr>;
          m3 = m2\<lparr>result := assign id (req_result b) (result m2)\<rparr>;
          m4 = m3\<lparr>turn := assign id (req_turn b) (turn m3)\<rparr>
      in case req_customPointsAfter b of
           None \<Rightarrow> m4
         | Some c \<Rightarrow> m4\<lparr>customPointsAfter := Some c, pointsAfter := c\<rparr>)"

text \<open>
  One pass of the loop body of lines 129-148 on the match at index \<open>i\<close>, given the points
  of the match before it. The body of the loop of the delete route (lines 202-220) is the
  same, with \<open>prevPoints\<close> where this one reads the \<open>pointsBefore\<close> it has just
  assigned. A match with an override keeps its \<open>pointsAfter\<close>: the loop does not assign
  it again.
\<close>

definition recalc :: "jsstring \<Rightarrow> rat \<Rightarrow> match \<Rightarrow> match" where
  "recalc formula prev m =
     (let m1 = m\<lparr>pointsBefore := prev\<rparr>
      in if customPointsAfter m1 = None
         then m1\<lparr>pointsAfter := calc_points formula (result m1) (pointsBefore m1)\<rparr>
         else m1)"

text \<open>
  The loop of lines 128-149. It reads \<open>session.matches[i - 1]\<close>; at \<open>i = 0\<close> that is
  \<open>undefined\<close> and reading its \<open>pointsAfter\<close> throws, which the handler's \<open>catch\<close>
  turns into a server error.
\<close>

function update_loop :: "jsstring \<Rightarrow> nat \<Rightarrow> match list \<Rightarrow> error + match list" where
  "update_loop formula i ms =
     (if i < length ms then
        (case i of
           0 \<Rightarrow> Inl ServerError
         | Suc j \<Rightarrow>
             update_loop formula (i + 1)
               (ms[i := recalc formula (pointsAfter (ms ! j)) (ms ! i)]))
      else Inr ms)"
  by pat_completeness auto
termination
  by (relation "measure (\<lambda>(formula, i, ms). length ms - i)") auto

text \<open>
  The handler reaches this code with the index \<open>findIndex\<close> returned. At an index
  outside the array \<open>session.matches[matchIndex]\<close> is \<open>undefined\<close> and the first
  access to it throws.
\<close>

definition update_match :: "nat \<Rightarrow> body \<Rightarrow> session \<Rightarrow> error + session" where
  "update_match matchIndex b s =
     (if matchIndex < length (matches s) then
        (let ms = (matches s)[matchIndex := set_fields b (matches s ! matchIndex)]
         in if req_customPointsAfter b \<noteq> None then
              (case update_loop (pointsFormula s) (matchIndex + 1) ms of
                 Inl e \<Rightarrow> Inl e
               | Inr ms' \<Rightarrow> Inr (s\<lparr>matches := ms'\<rparr>))
            else Inr (s\<lparr>matches := ms\<rparr>))
      else Inl ServerError)"

subsection \<open>DELETE /:sessionId/matches/:matchId\<close>

text \<open>\<open>splice(matchIndex, 1)\<close>, then the loop of lines 201-221.\<close>

definition splice1 :: "nat \<Rightarrow> 'a list \<Rightarrow> 'a list" where
  "splice1 k xs = take k xs @ drop (Suc k) xs"

function delete_loop :: "jsstring \<Rightarrow> rat \<Rightarrow> nat \<Rightarrow> match list \<Rightarrow> match list" where
  "delete_loop formula start i ms =
     (if i < length ms then
        (let prevPoints = (if i = 0 then start else pointsAfter (ms ! (i - 1)))
         in delete_loop formula start (i + 1) (ms[i := recalc formula prevPoints (ms ! i)]))
      else ms)"
  by pat_completeness auto
termination
  by (relation "measure (\<lambda>(formula, start, i, ms). length ms - i)") auto

definition delete_match :: "nat \<Rightarrow> session \<Rightarrow> session" where
  "delete_match matchIndex s =
     s\<lparr>matches :=
         delete_loop (pointsFormula s) (pointsStart s) matchIndex (splice1 matchIndex (matches s))\<rparr>"

subsection \<open>DELETE /:id/matches\<close>

definition clear_matches :: "session \<Rightarrow> session" where
  "clear_matches s = s\<lparr>matches := []\<rparr>"

section \<open>The handlers on the stored sessions\<close>

text \<open>
  The store maps a session id to its document. \<open>Session.findOne\<close> filters by id and
  owner; \<open>session.save()\<close> validates the document against the schema and writes it,
  or throws and writes nothing, and the handler's \<open>catch\<close> answers 500. The id of
  the requesting user comes from the \<open>auth\<close> middleware and the id of a pushed match
  from the driver; both are parameters. The hook that runs after a save recomputes the
  statistics of the owner in the collection of users; it does not touch a session and is
  left out.
\<close>

type_synonym store = "nat \<rightharpoonup> session"

definition findOne :: "store \<Rightarrow> nat \<Rightarrow> nat \<Rightarrow> session option" where
  "findOne db sid uid =
     (case db sid of
        None \<Rightarrow> None
      | Some s \<Rightarrow> (if user s = uid then Some s else None))"

definition save :: "nat \<Rightarrow> session \<Rightarrow> store \<Rightarrow> error + store" where
  "save sid s db = (if session_valid s then Inr (db(sid \<mapsto> s)) else Inl ServerError)"

fun findIndex :: "('a \<Rightarrow> bool) \<Rightarrow> 'a list \<Rightarrow> nat option" where
  "findIndex P [] = None"
| "findIndex P (x # xs) = (if P x then Some 0 else map_option Suc (findIndex P xs))"

definition post_match :: "nat \<Rightarrow> nat \<Rightarrow> nat \<Rightarrow> body \<Rightarrow> store \<Rightarrow> (error + match \<times> session) \<times> store" where
  "post_match new_id sid uid b db =
     (case (req_deck b, req_opp b, req_result b, req_turn b) of
        (Some d, Some p, Some res, Some t) \<Rightarrow>
          (if d = [] \<or> p = [] \<or> res = [] \<or> t = [] then (Inl BadRequest, db)
           else
             (case findOne db sid uid of
                None \<Rightarrow> (Inl NotFound, db)
              | Some s \<Rightarrow>
                  (let s' = add_match new_id d p res t (req_customPointsAfter b) s
                   in case save sid s' db of
                        Inl e \<Rightarrow> (Inl e, db)
                      | Inr db' \<Rightarrow> (Inr (last (matches s'), s'), db'))))
      | _ \<Rightarrow> (Inl BadRequest, db))"

definition put_match :: "nat \<Rightarrow> nat \<Rightarrow> nat \<Rightarrow> body \<Rightarrow> store \<Rightarrow> (error + match \<times> session) \<times> store" where
  "put_match sid matchId uid b db =
     (case findOne db sid uid of
        None \<Rightarrow> (Inl NotFound, db)
      | Some s \<Rightarrow>
          (case findIndex (\<lambda>m. mid m = matchId) (matches s) of
             None \<Rightarrow> (Inl NotFound, db)
           | Some matchIndex \<Rightarrow>
               (case update_match matchIndex b s of
                  Inl e \<Rightarrow> (Inl e, db)
                | Inr s' \<Rightarrow>
                    (case save sid s' db of
                       Inl e \<Rightarrow> (Inl e, db)
                     | Inr db' \<Rightarrow> (Inr (matches s' ! matchIndex, s'), db')))))"

definition delete_match_by_id :: "nat \<Rightarrow> nat \<Rightarrow> nat \<Rightarrow> store \<Rightarrow> (error + session) \<times> store" where
  "delete_match_by_id sid matchId uid db =
     (case findOne db sid uid of
        None \<Rightarrow> (Inl NotFound, db)
      | Some s \<Rightarrow>
          (case findIndex (\<lambda>m. mid m = matchId) (matches s) of
             None \<Rightarrow> (Inl NotFound, db)
           | Some matchIndex \<Rightarrow>
               (let s' = delete_match matchIndex s
                in case save sid s' db of
                     Inl e \<Rightarrow> (Inl e, db)
                   | Inr db' \<Rightarrow> (Inr s', db'))))"

definition clear_all :: "nat \<Rightarrow> nat \<Rightarrow> store \<Rightarrow> (error + session) \<times> store" where
  "clear_all sid uid db =
     (case findOne db sid uid of
        None \<Rightarrow> (Inl NotFound, db)
      | Some s \<Rightarrow>
          (let s' = clear_matches s
           in case save sid s' db of
                Inl e \<Rightarrow> (Inl e, db)
              | Inr db' \<Rightarrow> (Inr s', db')))"

section \<open>Session statistics (the \<open>stats\<close> virtual of backend/models/session.js)\<close>

record stats =
  total :: nat
  wins :: nat
  losses :: nat
  winRate :: rat
  winRate1st :: rat
  winRate2nd :: rat
  currentPoints :: rat
  peakPoints :: rat

text \<open>
  \<open>Math.round\<close> gives the integer nearest to the double it is applied to, the greater
  one on a tie; it is computed on the exact value of the double.
\<close>

definition math_round :: "rat \<Rightarrow> int" where
  "math_round x = \<lfloor>x + 1 / 2\<rfloor>"

text \<open>
  The expression \<open>n > 0 ? Math.round((w / n) * 1000) / 10 : 0\<close>, written three times
  in the source (lines 83, 87 and 91): the quotient, the product and the division by 10
  are operations on doubles.
\<close>

definition rate :: "nat \<Rightarrow> nat \<Rightarrow> rat" where
  "rate w n =
     (if n > 0
      then js_div (of_int (math_round (js_mul (js_div (of_nat w) (of_nat n)) 1000))) 10
      else 0)"

text \<open>\<open>Math.max(...xs, start)\<close>: the greatest of its arguments.\<close>

definition math_max :: "rat list \<Rightarrow> rat \<Rightarrow> rat" where
  "math_max xs start = foldr max xs start"

definition session_stats :: "session \<Rightarrow> stats" where
  "session_stats s =
     (let ms = matches s;
          n = length ms;
          w = length (filter (\<lambda>m. result m = js ''Win'') ms);
          matches1st = filter (\<lambda>m. turn m = js ''1st'') ms;
          wins1st = length (filter (\<lambda>m. result m = js ''Win'') matches1st);
          matches2nd = filter (\<lambda>m. turn m = js ''2nd'') ms;
          wins2nd = length (filter (\<lambda>m. result m = js ''Win'') matches2nd)
      in \<lparr> total = n, wins = w, losses = n - w,
           winRate = rate w n,
           winRate1st = rate wins1st (length matches1st),
           winRate2nd = rate wins2nd (length matches2nd),
           currentPoints = (if n > 0 then pointsAfter (ms ! (length ms - 1)) else pointsStart s),
           peakPoints = math_max (map pointsAfter ms) (pointsStart s) \<rparr>)"

section \<open>Forward recompute and the reachable sessions\<close>

text \<open>
  The forward recompute as the specification words it, to compare the loops of the source
  with: the match takes the carried points as \<open>pointsBefore\<close>; its \<open>pointsAfter\<close> is
  the override when there is one and the scoring rule otherwise; that value is carried on.
\<close>

fun forward_recompute :: "jsstring \<Rightarrow> rat \<Rightarrow> match list \<Rightarrow> match list" where
  "forward_recompute formula prior [] = []"
| "forward_recompute formula prior (m # ms) =
     (let after = (case customPointsAfter m of
                     Some c \<Rightarrow> c
                   | None \<Rightarrow> calc_points formula (result m) prior)
      in m\<lparr>pointsBefore := prior, pointsAfter := after\<rparr> # forward_recompute formula after ms)"

text \<open>The loops of the source as a recursion on the list: \<open>recalc\<close> on each match in turn.\<close>

fun recalc_from :: "jsstring \<Rightarrow> rat \<Rightarrow> match list \<Rightarrow> match list" where
  "recalc_from formula prior [] = []"
| "recalc_from formula prior (m # ms) =
     recalc formula prior m # recalc_from formula (pointsAfter (recalc formula prior m)) ms"

text \<open>
  A session is created with no matches (\<open>Session.create\<close> leaves \<open>matches\<close> at its
  default); the four operations on matches are the only code that changes the list, and
  no route changes \<open>pointsStart\<close> or \<open>pointsFormula\<close>.
\<close>

inductive reachable :: "session \<Rightarrow> bool" where
  created: "matches s = [] \<Longrightarrow> reachable s"
| appended: "reachable s \<Longrightarrow> reachable (add_match new_id d p res t custom s)"
| edited: "reachable s \<Longrightarrow> update_match i b s = Inr s' \<Longrightarrow> reachable s'"
| deleted: "reachable s \<Longrightarrow> i < length (matches s) \<Longrightarrow> reachable (delete_match i s)"
| cleared: "reachable s \<Longrightarrow> reachable (clear_matches s)"

text \<open>The chain of points, and the agreement of an override with \<open>pointsAfter\<close>.\<close>

fun chained :: "rat \<Rightarrow> match list \<Rightarrow> bool" where
  "chained prior [] = True"
| "chained prior (m # ms) = (pointsBefore m = prior \<and> chained (pointsAfter m) ms)"

definition pinned :: "match \<Rightarrow> bool" where
  "pinned m = (case customPointsAfter m of None \<Rightarrow> True | Some c \<Rightarrow> pointsAfter m = c)"

text \<open>The points a list of matches hands on to what follows it.\<close>

definition carry :: "rat \<Rightarrow> match list \<Rightarrow> rat" where
  "carry p ms = (if ms = [] then p else pointsAfter (last ms))"

subsection \<open>Sessions to evaluate the operations on\<close>

definition new_session :: session where
  "new_session = \<lparr> user = 1, matches = [], pointsFormula = js ''rated'', pointsStart = 1500 \<rparr>"

text \<open>A rated session from 1500 with a win, a loss and a win.\<close>

definition wlw_session :: session where
  "wlw_session =
     add_match 3 (js ''Branded'') (js ''Maliss'') (js ''Win'') (js ''2nd'') None
       (add_match 2 (js ''Branded'') (js ''Orcust'') (js ''Loss'') (js ''2nd'') None
         (add_match 1 (js ''Branded'') (js ''Orcust'') (js ''Win'') (js ''1st'') None new_session))"

text \<open>The same session with a fourth match that carries an override.\<close>

definition wlwo_session :: session where
  "wlwo_session = add_match 4 (js ''Branded'') (js ''Maliss'') (js ''Loss'') (js ''1st'') (Some 2000) wlw_session"

text \<open>A rated session from 1500 with one win in three matches, all played going first.\<close>

definition wll_session :: session where
  "wll_session =
     add_match 3 (js ''Orcust'') (js ''Maliss'') (js ''Loss'') (js ''1st'') None
       (add_match 2 (js ''Orcust'') (js ''Branded'') (js ''Loss'') (js ''1st'') None
         (add_match 1 (js ''Orcust'') (js ''Branded'') (js ''Win'') (js ''1st'') None new_session))"

text \<open>A store that holds the session \<open>wlw_session\<close> of user 1 under the id 7.\<close>

definition example_store :: store where
  "example_store = Map.empty(7 \<mapsto> wlw_session)"

text \<open>
  A rated session from 1500 in which the user has posted 201 wins and then 199 losses.
\<close>

fun play :: "nat \<Rightarrow> jsstring \<Rightarrow> session \<Rightarrow> session" where
  "play 0 res s = s"
| "play (Suc n) res s =
     play n res
       (add_match (Suc (length (matches s))) (js ''Branded'') (js ''Orcust'') res (js ''1st'') None s)"

definition long_session :: session where
  "long_session = play 199 (js ''Loss'') (play 201 (js ''Win'') new_session)"

subsection \<open>The win rate in exact arithmetic\<close>

text \<open>
  The formula of the specification, \<open>round(wins / total * 1000) / 10\<close>, before the
  division by 10 and taken in exact arithmetic, to compare the statistics of the source
  with; and the distance of \<open>wins / total * 1000\<close> from the nearest number halfway
  between two integers, where the rounding changes.
\<close>

definition exact_round :: "nat \<Rightarrow> nat \<Rightarrow> int" where
  "exact_round w n = round (of_nat w / of_nat n * 1000 :: rat)"

definition tie_gap :: "nat \<Rightarrow> nat \<Rightarrow> rat" where
  "tie_gap w n =
     (let v = of_nat w / of_nat n * 1000 :: rat
      in \<bar>v - of_int \<lfloor>v\<rfloor> - 1 / 2\<bar>)"

section \<open>Code units and doubles\<close>

lemma js_eq_iff [simp]: "(js a = js b) = (a = b)"
  by (simp add: js_def inj_map_eq_map[OF inj_of_char])

lemma js_Nil_iff [simp]: "(js a = []) = (a = [])" "([] = js a) = (a = [])"
  by (auto simp: js_def)

lemma expo_from_bounds: "- 1022 \<le> expo_from n a \<and> expo_from n a \<le> int n - 1022"
  by (induction n) auto

lemma expo_from_lower: "expo_from n a \<noteq> - 1022 \<Longrightarrow> 2 powi (expo_from n a) \<le> a"
  by (induction n) (auto split: if_splits)

lemma expo_from_upper: "a < 2 powi (int n - 1021) \<Longrightarrow> a < 2 powi (expo_from n a + 1)"
proof (induction n)
  case 0
  then show ?case by simp
next
  case (Suc n)
  show ?case
  proof (cases "2 powi (int n - 1021) \<le> a")
    case True
    then show ?thesis using Suc.prems by (simp add: algebra_simps)
  next
    case False
    then show ?thesis using Suc.IH by simp
  qed
qed

lemma exponent_range: "- 1022 \<le> exponent x" "exponent x \<le> 1023"
  using expo_from_bounds[of 2045 "\<bar>x\<bar>"] by (simp_all add: exponent_def)

lemma exponent_lower: "exponent x \<noteq> - 1022 \<Longrightarrow> 2 powi (exponent x) \<le> \<bar>x\<bar>"
  unfolding exponent_def by (rule expo_from_lower)

lemma exponent_upper: "\<bar>x\<bar> < 2 powi 1024 \<Longrightarrow> \<bar>x\<bar> < 2 powi (exponent x + 1)"
  unfolding exponent_def using expo_from_upper[of "\<bar>x\<bar>" 2045] by simp

lemma exponent_unique:
  assumes "- 1022 \<le> e" and "e \<le> 1023" and "2 powi e \<le> \<bar>x\<bar>" and "\<bar>x\<bar> < 2 powi (e + 1)"
  shows "exponent x = e"
proof -
  have "(2::rat) powi (e + 1) \<le> 2 powi 1024"
    using assms(2) by (intro power_int_increasing) simp_all
  then have u: "\<bar>x\<bar> < 2 powi (exponent x + 1)"
    using assms(4) by (intro exponent_upper) simp
  have "(2::rat) powi e < 2 powi (exponent x + 1)"
    using assms(3) u by simp
  then have "e < exponent x + 1"
    by (metis not_less power_int_increasing[of _ _ "2::rat"] one_le_numeral)
  then have le: "e \<le> exponent x" by simp
  show ?thesis
  proof (cases "exponent x = - 1022")
    case True
    then show ?thesis using le assms(1) by simp
  next
    case False
    then have "(2::rat) powi (exponent x) < 2 powi (e + 1)"
      using exponent_lower[OF False] assms(4) by simp
    then have "exponent x < e + 1"
      by (metis not_less power_int_increasing[of _ _ "2::rat"] one_le_numeral)
    then show ?thesis using le by simp
  qed
qed

lemma exponent_small: "\<bar>x\<bar> < 2 powi (- 1022) \<Longrightarrow> exponent x = - 1022"
proof (rule ccontr)
  assume a: "\<bar>x\<bar> < 2 powi (- 1022)" and n: "exponent x \<noteq> - 1022"
  have "(2::rat) powi (- 1022) \<le> 2 powi (exponent x)"
    using exponent_range(1)[of x] by (intro power_int_increasing) simp_all
  then show False using exponent_lower[OF n] a by simp
qed

lemma exponent_le:
  assumes "\<bar>x\<bar> < 2 powi (e + 1)" and "- 1022 \<le> e"
  shows "exponent x \<le> e"
proof (cases "exponent x = - 1022")
  case True
  then show ?thesis using assms(2) by simp
next
  case False
  have "(2::rat) powi (exponent x) < 2 powi (e + 1)"
    using exponent_lower[OF False] assms(1) by simp
  then have "exponent x < e + 1"
    by (metis not_less power_int_increasing[of _ _ "2::rat"] one_le_numeral)
  then show ?thesis by simp
qed

lemma round_even_of_int [simp]: "round_even (of_int k) = k"
  by (simp add: round_even_def)

lemma round_even_error: "\<bar>of_int (round_even z) - z\<bar> \<le> 1 / 2"
proof -
  define r where "r = z - of_int \<lfloor>z\<rfloor>"
  have r: "0 \<le> r" "r < 1" unfolding r_def by linarith+
  have z: "z = of_int \<lfloor>z\<rfloor> + r" unfolding r_def by simp
  consider "r < 1 / 2" | "1 / 2 < r" | "r = 1 / 2" by linarith
  then show ?thesis
  proof cases
    case 1
    then have "round_even z = \<lfloor>z\<rfloor>" by (simp add: round_even_def Let_def r_def)
    then show ?thesis using 1 r z by simp
  next
    case 2
    then have "round_even z = \<lfloor>z\<rfloor> + 1" by (simp add: round_even_def Let_def r_def)
    then show ?thesis using 2 r z by simp
  next
    case 3
    then have "round_even z = \<lfloor>z\<rfloor> \<or> round_even z = \<lfloor>z\<rfloor> + 1"
      by (simp add: round_even_def Let_def r_def)
    then show ?thesis using 3 z by auto
  qed
qed

lemma fl_error: "\<bar>fl x - x\<bar> \<le> 2 powi (exponent x - 53)"
proof -
  define u :: rat where "u = 2 powi (exponent x - 52)"
  define d where "d = of_int (round_even (x / u)) - x / u"
  have pos: "0 < u" unfolding u_def by (simp add: zero_less_power_int)
  have "fl x - x = d * u"
    using pos by (simp add: fl_def u_def[symmetric] d_def algebra_simps)
  then have "\<bar>fl x - x\<bar> = \<bar>d\<bar> * u"
    using pos by (simp add: abs_mult)
  also have "\<dots> \<le> 1 / 2 * u"
    using round_even_error[of "x / u"] pos unfolding d_def by (intro mult_right_mono) simp_all
  also have "\<dots> = 2 powi (exponent x - 53)"
    unfolding u_def by (simp add: power_int_diff)
  finally show ?thesis .
qed

lemma fl_at:
  assumes "- 1022 \<le> e" and "e \<le> 1023" and "2 powi e \<le> \<bar>x\<bar>" and "\<bar>x\<bar> < 2 powi (e + 1)"
  shows "fl x = of_int (round_even (x / 2 powi (e - 52))) * 2 powi (e - 52)"
  by (simp add: fl_def exponent_unique[OF assms])

lemma fl_dyadic:
  assumes "x = of_int m * 2 powi q" and "\<bar>m\<bar> < 2 ^ 53" and "- 1074 \<le> q"
  shows "fl x = x"
proof -
  let ?u = "exponent x - 52"
  have uq: "?u \<le> q"
  proof (cases "exponent x = - 1022")
    case True
    then show ?thesis using assms(3) by simp
  next
    case False
    have "\<bar>x\<bar> = of_int \<bar>m\<bar> * 2 powi q"
      by (simp add: assms(1) abs_mult)
    also have "\<dots> < 2 ^ 53 * 2 powi q"
    proof (intro mult_strict_right_mono)
      have "rat_of_int \<bar>m\<bar> < rat_of_int (2 ^ 53)" using assms(2) by (simp only: of_int_less_iff)
      then show "rat_of_int \<bar>m\<bar> < 2 ^ 53" by simp
    qed (simp add: zero_less_power_int)
    also have "\<dots> = 2 powi (53 + q)"
      by (simp add: power_int_add)
    finally have "(2::rat) powi (exponent x) < 2 powi (53 + q)"
      using exponent_lower[OF False] by simp
    then have "exponent x < 53 + q"
      by (metis not_less power_int_increasing[of _ _ "2::rat"] one_le_numeral)
    then show ?thesis by simp
  qed
  have "x / 2 powi ?u = of_int m * 2 powi (q - ?u)"
    by (simp add: assms(1) power_int_diff)
  also have "\<dots> = of_int m * 2 ^ nat (q - ?u)"
    using uq by (simp add: power_int_nonneg_exp)
  also have "\<dots> = of_int (m * 2 ^ nat (q - ?u))" by simp
  finally have "x / 2 powi ?u = of_int (m * 2 ^ nat (q - ?u))" .
  then have "fl x = x / 2 powi ?u * 2 powi ?u"
    unfolding fl_def by (simp only: round_even_of_int)
  then show ?thesis by simp
qed

lemma fl_of_int: "\<bar>m\<bar> < 2 ^ 53 \<Longrightarrow> fl (of_int m) = of_int m"
  using fl_dyadic[of "of_int m" m 0] by simp

lemma fl_half: "\<bar>m\<bar> < 2 ^ 53 \<Longrightarrow> fl (of_int m / 2) = of_int m / 2"
  using fl_dyadic[of "of_int m / 2" m "- 1"] by simp

lemma fl_0 [simp]: "fl 0 = 0"
  using fl_of_int[of 0] by simp

lemma fl_numeral [simp]:
  "(numeral n :: int) < 9007199254740992 \<Longrightarrow> fl (numeral n) = numeral n"
  "(numeral n :: int) < 9007199254740992 \<Longrightarrow> fl (- numeral n) = - numeral n"
  "(numeral n :: int) < 9007199254740992 \<Longrightarrow> fl (numeral n / 2) = numeral n / 2"
  "(numeral n :: int) < 9007199254740992 \<Longrightarrow> fl (- (numeral n / 2)) = - (numeral n / 2)"
  using fl_of_int[of "numeral n"] fl_of_int[of "- numeral n"]
    fl_half[of "numeral n"] fl_half[of "- numeral n"] by simp_all

lemma fl_1 [simp]: "fl 1 = 1" "fl (- 1) = - 1" "fl (1 / 2) = 1 / 2" "fl (- (1 / 2)) = - (1 / 2)"
  using fl_of_int[of 1] fl_of_int[of "- 1"] fl_half[of 1] fl_half[of "- 1"] by simp_all

section \<open>The loops as list recursions\<close>

declare delete_loop.simps [simp del]
declare update_loop.simps [simp del]

lemma recalc_fields [simp]:
  "pointsBefore (recalc f p m) = p"
  "customPointsAfter (recalc f p m) = customPointsAfter m"
  "result (recalc f p m) = result m"
  "mid (recalc f p m) = mid m"
  by (simp_all add: recalc_def Let_def)

lemma recalc_idem: "recalc f p (recalc f p m) = recalc f p m"
  by (simp add: recalc_def Let_def)

lemma delete_loop_eq:
  "delete_loop f st i ms =
     take i ms @ recalc_from f (if i = 0 then st else pointsAfter (ms ! (i - 1))) (drop i ms)"
proof (induction f st i ms rule: delete_loop.induct)
  case (1 f st i ms)
  show ?case
  proof (cases "i < length ms")
    case False
    then show ?thesis by (simp add: delete_loop.simps[of f st i ms])
  next
    case True
    define prev where "prev = (if i = 0 then st else pointsAfter (ms ! (i - 1)))"
    define m' where "m' = recalc f prev (ms ! i)"
    have step: "delete_loop f st i ms = delete_loop f st (i + 1) (ms[i := m'])"
      using True by (subst delete_loop.simps) (simp add: prev_def m'_def Let_def)
    have ih: "delete_loop f st (i + 1) (ms[i := m']) =
        take (i + 1) (ms[i := m']) @ recalc_from f (pointsAfter ((ms[i := m']) ! i)) (drop (i + 1) (ms[i := m']))"
      using "1.IH"[OF True refl] by (simp add: m'_def prev_def)
    have t: "take (i + 1) (ms[i := m']) = take i ms @ [m']"
      using True by (simp add: take_Suc_conv_app_nth)
    have d: "drop i ms = ms ! i # drop (i + 1) ms"
      using True by (simp add: Cons_nth_drop_Suc)
    show ?thesis
      unfolding step ih t d using True by (simp add: m'_def prev_def)
  qed
qed

lemma update_loop_eq:
  "update_loop f (Suc j) ms =
     Inr (take (Suc j) ms @ recalc_from f (pointsAfter (ms ! j)) (drop (Suc j) ms))"
proof (induction f "Suc j" ms arbitrary: j rule: update_loop.induct)
  case (1 f ms)
  show ?case
  proof (cases "Suc j < length ms")
    case False
    then show ?thesis by (simp add: update_loop.simps[of f "Suc j" ms])
  next
    case True
    define m' where "m' = recalc f (pointsAfter (ms ! j)) (ms ! Suc j)"
    have step: "update_loop f (Suc j) ms = update_loop f (Suc (Suc j)) (ms[Suc j := m'])"
      using True by (subst update_loop.simps) (simp add: m'_def)
    have ih: "update_loop f (Suc (Suc j)) (ms[Suc j := m']) =
        Inr (take (Suc (Suc j)) (ms[Suc j := m']) @
          recalc_from f (pointsAfter ((ms[Suc j := m']) ! Suc j)) (drop (Suc (Suc j)) (ms[Suc j := m'])))"
      using "1.hyps"[OF True refl, of "Suc j"] by (simp add: m'_def)
    have t: "take (Suc (Suc j)) (ms[Suc j := m']) = take (Suc j) ms @ [m']"
      using True by (simp add: take_Suc_conv_app_nth[of "Suc j"])
    have d: "drop (Suc j) ms = ms ! Suc j # drop (Suc (Suc j)) ms"
      using True by (simp add: Cons_nth_drop_Suc)
    show ?thesis
      unfolding step ih t d using True by (simp add: m'_def)
  qed
qed

lemma length_recalc_from [simp]: "length (recalc_from f p ms) = length ms"
  by (induction ms arbitrary: p) simp_all

lemma recalc_from_idem: "recalc_from f p (recalc_from f p ms) = recalc_from f p ms"
  by (induction ms arbitrary: p) (simp_all add: recalc_idem)

lemma recalc_pinned_eq:
  "pinned m \<Longrightarrow> recalc f p m =
     m\<lparr>pointsBefore := p,
       pointsAfter := (case customPointsAfter m of Some c \<Rightarrow> c | None \<Rightarrow> calc_points f (result m) p)\<rparr>"
  by (cases "customPointsAfter m") (simp_all add: recalc_def pinned_def Let_def)

lemma recalc_from_forward:
  "list_all pinned ms \<Longrightarrow> recalc_from f p ms = forward_recompute f p ms"
proof (induction ms arbitrary: p)
  case Nil
  then show ?case by simp
next
  case (Cons m ms)
  then have pm: "pinned m" and pms: "list_all pinned ms" by simp_all
  show ?case
    by (simp add: recalc_pinned_eq[OF pm] Cons.IH[OF pms] Let_def)
qed

lemma pinned_recalc: "pinned m \<Longrightarrow> pinned (recalc f p m)"
  by (cases "customPointsAfter m") (simp_all add: recalc_def pinned_def Let_def)

lemma pinned_recalc_from: "list_all pinned ms \<Longrightarrow> list_all pinned (recalc_from f p ms)"
  by (induction ms arbitrary: p) (simp_all add: pinned_recalc)

lemma chained_recalc_from: "chained p (recalc_from f p ms)"
  by (induction ms arbitrary: p) simp_all

lemma chained_append:
  "chained p (xs @ ys) = (chained p xs \<and> chained (carry p xs) ys)"
  by (induction xs arbitrary: p) (simp_all add: carry_def)

lemma chained_take: "chained p ms \<Longrightarrow> chained p (take n ms)"
  by (metis append_take_drop_id chained_append)

lemma chained_nth:
  "chained p ms \<Longrightarrow> i < length ms \<Longrightarrow>
     pointsBefore (ms ! i) = (if i = 0 then p else pointsAfter (ms ! (i - 1)))"
proof (induction ms arbitrary: p i)
  case Nil
  then show ?case by simp
next
  case (Cons m ms)
  show ?case
  proof (cases i)
    case 0
    with Cons.prems show ?thesis by simp
  next
    case (Suc k)
    with Cons.prems have "pointsBefore (ms ! k) = (if k = 0 then pointsAfter m else pointsAfter (ms ! (k - 1)))"
      using Cons.IH[of "pointsAfter m" k] by simp
    with Suc show ?thesis by (cases k) simp_all
  qed
qed

lemma chained_iff_nth:
  "chained p ms =
     (\<forall>i < length ms. pointsBefore (ms ! i) = (if i = 0 then p else pointsAfter (ms ! (i - 1))))"
proof (induction ms arbitrary: p)
  case Nil
  then show ?case by simp
next
  case (Cons m ms)
  show ?case (is "?L = ?R")
  proof
    assume ?L
    then show ?R using chained_nth[of p "m # ms"] by blast
  next
    assume r: ?R
    then have h: "pointsBefore m = p" by force
    have "\<forall>i < length ms. pointsBefore (ms ! i) = (if i = 0 then pointsAfter m else pointsAfter (ms ! (i - 1)))"
    proof (intro allI impI)
      fix i assume "i < length ms"
      then have "pointsBefore ((m # ms) ! Suc i) = pointsAfter ((m # ms) ! i)"
        using r by (metis Suc_less_eq diff_Suc_1 length_Cons nat.simps(3))
      then show "pointsBefore (ms ! i) = (if i = 0 then pointsAfter m else pointsAfter (ms ! (i - 1)))"
        by (cases i) simp_all
    qed
    then show ?L using h Cons.IH[of "pointsAfter m"] by simp
  qed
qed

lemma set_fields_points [simp]:
  "pointsBefore (set_fields b m) = pointsBefore m"
  "mid (set_fields b m) = mid m"
  by (simp_all add: set_fields_def Let_def split: option.splits)

lemma set_fields_None:
  "req_customPointsAfter b = None \<Longrightarrow> pointsAfter (set_fields b m) = pointsAfter m"
  "req_customPointsAfter b = None \<Longrightarrow> customPointsAfter (set_fields b m) = customPointsAfter m"
  by (simp_all add: set_fields_def Let_def)

lemma set_fields_Some:
  "req_customPointsAfter b = Some c \<Longrightarrow> pointsAfter (set_fields b m) = c"
  "req_customPointsAfter b = Some c \<Longrightarrow> customPointsAfter (set_fields b m) = Some c"
  by (simp_all add: set_fields_def Let_def)

lemma pinned_set_fields: "pinned m \<Longrightarrow> pinned (set_fields b m)"
  by (cases "req_customPointsAfter b")
     (simp_all add: pinned_def set_fields_None set_fields_Some split: option.splits)

lemma update_match_None:
  assumes "i < length (matches s)" and "req_customPointsAfter b = None"
  shows "update_match i b s = Inr (s\<lparr>matches := (matches s)[i := set_fields b (matches s ! i)]\<rparr>)"
  using assms by (simp add: update_match_def Let_def)

lemma update_match_Some:
  assumes "i < length (matches s)" and "req_customPointsAfter b = Some c"
  shows "update_match i b s =
     Inr (s\<lparr>matches := take i (matches s) @ set_fields b (matches s ! i) #
                         recalc_from (pointsFormula s) c (drop (Suc i) (matches s))\<rparr>)"
proof -
  let ?ms = "matches s"
  let ?m' = "set_fields b (?ms ! i)"
  have t: "take (Suc i) (?ms[i := ?m']) = take i ?ms @ [?m']"
    using assms(1) by (simp add: take_Suc_conv_app_nth)
  have "update_loop (pointsFormula s) (Suc i) (?ms[i := ?m']) =
      Inr (take i ?ms @ ?m' # recalc_from (pointsFormula s) c (drop (Suc i) ?ms))"
    unfolding update_loop_eq t using assms by (simp add: set_fields_Some)
  then show ?thesis
    using assms by (simp add: update_match_def Let_def)
qed

lemma update_match_range:
  "update_match i b s = Inr s' \<Longrightarrow> i < length (matches s)"
  by (simp add: update_match_def split: if_splits)

lemma delete_match_eq:
  assumes "k < length (matches s)"
  shows "matches (delete_match k s) =
     take k (matches s) @
       recalc_from (pointsFormula s) (carry (pointsStart s) (take k (matches s)))
         (drop (Suc k) (matches s))"
proof -
  let ?ms = "matches s"
  have t: "take k (splice1 k ?ms) = take k ?ms"
    using assms by (simp add: splice1_def)
  have d: "drop k (splice1 k ?ms) = drop (Suc k) ?ms"
    using assms by (simp add: splice1_def)
  have n: "0 < k \<Longrightarrow> splice1 k ?ms ! (k - 1) = ?ms ! (k - 1)"
    using assms by (simp add: splice1_def nth_append)
  have c: "(if k = 0 then pointsStart s else pointsAfter (splice1 k ?ms ! (k - 1))) =
      carry (pointsStart s) (take k ?ms)"
  proof (cases k)
    case 0
    then show ?thesis by (simp add: carry_def)
  next
    case (Suc j)
    then have ne: "take k ?ms \<noteq> []" using assms by auto
    have "last (take k ?ms) = ?ms ! j"
      using assms Suc by (simp add: take_Suc_conv_app_nth)
    then show ?thesis using n Suc ne by (simp add: carry_def)
  qed
  show ?thesis
    by (simp add: delete_match_def delete_loop_eq t d c)
qed

lemma delete_match_frame [simp]:
  "pointsStart (delete_match k s) = pointsStart s"
  "pointsFormula (delete_match k s) = pointsFormula s"
  "user (delete_match k s) = user s"
  by (simp_all add: delete_match_def)

lemma add_match_frame [simp]:
  "pointsStart (add_match n d p r t c s) = pointsStart s"
  "pointsFormula (add_match n d p r t c s) = pointsFormula s"
  "user (add_match n d p r t c s) = user s"
  "matches (add_match n d p r t c s) = matches s @ [matchData s n d p r t c]"
  by (simp_all add: add_match_def)

lemma update_match_frame:
  assumes "update_match i b s = Inr s'"
  shows "pointsStart s' = pointsStart s" "pointsFormula s' = pointsFormula s" "user s' = user s"
    "length (matches s') = length (matches s)"
proof -
  have r: "i < length (matches s)" using assms by (rule update_match_range)
  show "pointsStart s' = pointsStart s" "pointsFormula s' = pointsFormula s" "user s' = user s"
    "length (matches s') = length (matches s)"
    using assms r update_match_None[OF r, of b] update_match_Some[OF r, of b]
    by (cases "req_customPointsAfter b"; auto)+
qed

lemma last_points_carry: "last_points s = carry (pointsStart s) (matches s)"
  by (simp add: last_points_def carry_def)

lemma pinned_matchData: "pinned (matchData s n d p r t c)"
  by (cases c) (simp_all add: pinned_def matchData_def new_points_def)

lemma chained_update_same:
  assumes "chained p ms" and "pointsBefore m = pointsBefore (ms ! i)"
    and "pointsAfter m = pointsAfter (ms ! i)"
  shows "chained p (ms[i := m])"
  unfolding chained_iff_nth
proof (intro allI impI)
  fix j assume j: "j < length (ms[i := m])"
  have pb: "pointsBefore ((ms[i := m]) ! j) = pointsBefore (ms ! j)" if "j < length ms" for j
    using assms(2) that by (cases "i = j") simp_all
  have pa: "pointsAfter ((ms[i := m]) ! j) = pointsAfter (ms ! j)" if "j < length ms" for j
    using assms(3) that by (cases "i = j") simp_all
  have j': "j < length ms" "j - 1 < length ms" using j by simp_all
  show "pointsBefore (ms[i := m] ! j) = (if j = 0 then p else pointsAfter (ms[i := m] ! (j - 1)))"
    using assms(1) j' unfolding chained_iff_nth pb[OF j'(1)] pa[OF j'(2)] by simp
qed

lemma chained_take_snoc:
  assumes "chained p ms" and "i < length ms" and "pointsBefore m = pointsBefore (ms ! i)"
  shows "chained p (take i ms @ [m])"
proof -
  have "chained p (take (Suc i) ms)" using assms(1) by (rule chained_take)
  then have "chained p (take i ms @ [ms ! i])"
    using assms(2) by (simp add: take_Suc_conv_app_nth)
  then show ?thesis using assms(3) by (simp add: chained_append)
qed

lemma reachable_inv:
  "reachable s \<Longrightarrow> chained (pointsStart s) (matches s) \<and> list_all pinned (matches s)"
proof (induction rule: reachable.induct)
  case (created s)
  then show ?case by simp
next
  case (appended s new_id d p res t custom)
  then show ?case
    by (simp add: chained_append pinned_matchData last_points_carry[symmetric])
       (simp add: matchData_def)
next
  case (edited s i b s')
  then have ch: "chained (pointsStart s) (matches s)" and pn: "list_all pinned (matches s)"
    by simp_all
  have r: "i < length (matches s)" using edited.hyps(2) by (rule update_match_range)
  have pi: "pinned (matches s ! i)" using pn r by (simp add: list_all_length)
  show ?case
  proof (cases "req_customPointsAfter b")
    case None
    then have s': "s' = s\<lparr>matches := (matches s)[i := set_fields b (matches s ! i)]\<rparr>"
      using update_match_None[OF r None] edited.hyps(2) by simp
    have "chained (pointsStart s) ((matches s)[i := set_fields b (matches s ! i)])"
      using ch by (rule chained_update_same) (simp_all add: set_fields_None None)
    moreover have "list_all pinned ((matches s)[i := set_fields b (matches s ! i)])"
      using pn pi r by (auto simp: list_all_length nth_list_update pinned_set_fields)
    ultimately show ?thesis by (simp add: s')
  next
    case (Some c)
    let ?m' = "set_fields b (matches s ! i)"
    have s': "s' = s\<lparr>matches := take i (matches s) @ ?m' #
        recalc_from (pointsFormula s) c (drop (Suc i) (matches s))\<rparr>"
      using update_match_Some[OF r Some] edited.hyps(2) by simp
    have c1: "chained (pointsStart s) (take i (matches s) @ [?m'])"
      using ch r by (rule chained_take_snoc) simp
    have "chained (pointsStart s) ((take i (matches s) @ [?m']) @
        recalc_from (pointsFormula s) c (drop (Suc i) (matches s)))"
      unfolding chained_append[of _ "take i (matches s) @ [?m']"]
      using c1 by (simp add: carry_def set_fields_Some[OF Some] chained_recalc_from)
    moreover have "list_all pinned (take i (matches s))" "list_all pinned (drop (Suc i) (matches s))"
      using pn by (metis append_take_drop_id list_all_append)+
    ultimately show ?thesis
      using pi by (simp add: s' pinned_set_fields pinned_recalc_from)
  qed
next
  case (deleted s i)
  then have ch: "chained (pointsStart s) (matches s)" and pn: "list_all pinned (matches s)"
    by simp_all
  have "list_all pinned (take i (matches s))" "list_all pinned (drop (Suc i) (matches s))"
    using pn by (metis append_take_drop_id list_all_append)+
  then show ?case
    using chained_take[OF ch, of i]
    by (simp add: delete_match_eq[OF deleted.hyps(2)] chained_append chained_recalc_from
        pinned_recalc_from)
next
  case (cleared s)
  then show ?case by (simp add: clear_matches_def)
qed

section \<open>Evaluating the example sessions\<close>

lemma reachable_new: "reachable new_session"
  by (rule reachable.created) (simp add: new_session_def)

lemma reachable_wlw: "reachable wlw_session"
  unfolding wlw_session_def by (intro reachable.appended reachable_new)

lemma reachable_wlwo: "reachable wlwo_session"
  unfolding wlwo_session_def by (intro reachable.appended reachable_wlw)

lemma wlw_points:
  "map (\<lambda>m. (pointsBefore m, pointsAfter m)) (matches wlw_session) =
     [(1500, 1507), (1507, 1500), (1500, 1507)]"
  by (simp add: wlw_session_def new_session_def add_match_def matchData_def last_points_def
      new_points_def calc_points_def js_add_def js_sub_def)

lemma wlw_length: "length (matches wlw_session) = 3"
  using arg_cong[OF wlw_points, of length] by simp

section \<open>Forward recompute, idempotence and overrides\<close>

lemma pinned_forward: "list_all pinned (forward_recompute f p ms)"
  by (induction ms arbitrary: p) (simp_all add: Let_def pinned_def split: option.splits)

lemma length_forward [simp]: "length (forward_recompute f p ms) = length ms"
  by (induction ms arbitrary: p) (simp_all add: Let_def)

lemma forward_custom:
  "k < length ms \<Longrightarrow>
     customPointsAfter (forward_recompute f p ms ! k) = customPointsAfter (ms ! k)"
proof (induction ms arbitrary: p k)
  case Nil
  then show ?case by simp
next
  case (Cons m ms)
  then show ?case by (cases k) (simp_all add: Let_def)
qed

lemma forward_idem:
  "forward_recompute f p (forward_recompute f p ms) = forward_recompute f p ms"
  by (induction ms arbitrary: p) (simp_all add: Let_def split: option.splits)

lemmas eval_defs = wlwo_session_def wlw_session_def new_session_def add_match_def matchData_def
  last_points_def new_points_def calc_points_def js_add_def js_sub_def delete_match_def splice1_def
  delete_loop.simps update_loop.simps recalc_def update_match_def set_fields_def assign_def
  trim_def is_ws_def Let_def

lemma delete_loop_idem:
  "delete_loop f st i (delete_loop f st i ms) = delete_loop f st i ms"
proof (cases "i \<le> length ms")
  case False
  then show ?thesis by (simp add: delete_loop.simps[of f st i ms])
next
  case True
  let ?p = "if i = 0 then st else pointsAfter (ms ! (i - 1))"
  let ?r = "take i ms @ recalc_from f ?p (drop i ms)"
  have a: "delete_loop f st i ms = ?r" by (rule delete_loop_eq)
  have t: "take i ?r = take i ms" using True by simp
  have d: "drop i ?r = recalc_from f ?p (drop i ms)" using True by simp
  have p: "(if i = 0 then st else pointsAfter (?r ! (i - 1))) = ?p"
    using True by (cases i) (simp_all add: nth_append)
  show ?thesis
    unfolding a by (subst delete_loop_eq) (simp only: t d p recalc_from_idem)
qed

lemma update_loop_idem:
  assumes "update_loop f i ms = Inr ms'"
  shows "update_loop f i ms' = Inr ms'"
proof (cases i)
  case 0
  then have "ms = []" "ms' = []"
    using assms by (auto simp: update_loop.simps[of f 0 ms] split: if_splits)
  then show ?thesis using 0 by (simp add: update_loop.simps[of f 0 "[]"])
next
  case (Suc j)
  show ?thesis
  proof (cases "Suc j \<le> length ms")
    case False
    then have "update_loop f (Suc j) ms = Inr ms"
      by (simp add: update_loop.simps[of f "Suc j" ms])
    then show ?thesis using assms Suc by simp
  next
    case True
    let ?p = "pointsAfter (ms ! j)"
    let ?r = "take (Suc j) ms @ recalc_from f ?p (drop (Suc j) ms)"
    have a: "ms' = ?r" using assms unfolding Suc update_loop_eq by simp
    have t: "take (Suc j) ?r = take (Suc j) ms" using True by simp
    have d: "drop (Suc j) ?r = recalc_from f ?p (drop (Suc j) ms)" using True by simp
    have p: "pointsAfter (?r ! j) = ?p"
      using True by (simp add: nth_append)
    show ?thesis
      unfolding a Suc by (subst update_loop_eq) (simp only: t d p recalc_from_idem)
  qed
qed

lemma custom_recalc_from [simp]:
  "map customPointsAfter (recalc_from f p ms) = map customPointsAfter ms"
  by (induction ms arbitrary: p) simp_all

lemma custom_delete_match:
  "map customPointsAfter (matches (delete_match k s)) = splice1 k (map customPointsAfter (matches s))"
proof (cases "k < length (matches s)")
  case True
  show ?thesis
    by (simp add: delete_match_eq[OF True] splice1_def take_map drop_map)
next
  case False
  then show ?thesis
    by (simp add: delete_match_def splice1_def delete_loop.simps[of _ _ k])
qed

lemma custom_update_None:
  assumes "update_match i b s = Inr s'" and "req_customPointsAfter b = None"
  shows "map customPointsAfter (matches s') = map customPointsAfter (matches s)"
proof -
  have r: "i < length (matches s)" using assms(1) by (rule update_match_range)
  have "s' = s\<lparr>matches := (matches s)[i := set_fields b (matches s ! i)]\<rparr>"
    using update_match_None[OF r assms(2)] assms(1) by simp
  then show ?thesis
    using r by (simp add: list_eq_iff_nth_eq nth_list_update set_fields_None[OF assms(2)])
qed

lemma custom_update_kept:
  assumes "update_match i b s = Inr s'" and "j < length (matches s)"
    and "customPointsAfter (matches s ! j) = Some c"
  shows "\<exists>c'. customPointsAfter (matches s' ! j) = Some c' \<and>
    (j \<noteq> i \<longrightarrow> c' = c) \<and> (req_customPointsAfter b = None \<longrightarrow> c' = c)"
proof (cases "req_customPointsAfter b")
  case None
  have "map customPointsAfter (matches s') ! j = map customPointsAfter (matches s) ! j"
    using custom_update_None[OF assms(1) None] by simp
  moreover have "length (matches s') = length (matches s)"
    using update_match_frame(4)[OF assms(1)] .
  ultimately show ?thesis using assms(2,3) by simp
next
  case (Some x)
  have r: "i < length (matches s)" using assms(1) by (rule update_match_range)
  let ?l = "take i (matches s) @ set_fields b (matches s ! i) #
      recalc_from (pointsFormula s) x (drop (Suc i) (matches s))"
  have s': "matches s' = ?l"
    using update_match_Some[OF r Some] assms(1) by auto
  have len: "length ?l = length (matches s)" using r by simp
  have m: "map customPointsAfter ?l = (map customPointsAfter (matches s))[i := Some x]"
    using r by (simp add: set_fields_Some[OF Some] take_map[symmetric] drop_map[symmetric]
        upd_conv_take_nth_drop)
  have "customPointsAfter (?l ! j) = map customPointsAfter ?l ! j"
    using assms(2) len by (simp only: nth_map)
  then have "customPointsAfter (matches s' ! j) = (map customPointsAfter (matches s))[i := Some x] ! j"
    unfolding s' m .
  then show ?thesis
    using assms(2,3) r Some by (cases "i = j") simp_all
qed

section \<open>Statistics, validation and the handlers\<close>

lemma math_max_Max: "math_max xs start = Max (insert start (set xs))"
proof (induction xs)
  case Nil
  then show ?case by (simp add: math_max_def)
next
  case (Cons x xs)
  have "Max (insert start (set (x # xs))) = Max (insert x (insert start (set xs)))"
    by (simp add: insert_commute)
  also have "\<dots> = max x (Max (insert start (set xs)))"
    by (rule Max_insert) simp_all
  finally show ?case using Cons by (simp add: math_max_def)
qed

lemmas stats_defs = wll_session_def new_session_def add_match_def matchData_def
  last_points_def new_points_def calc_points_def js_add_def js_sub_def trim_def is_ws_def

lemma trim_nonempty: "trim d \<noteq> [] \<Longrightarrow> d \<noteq> []"
  by (auto simp: trim_def)

lemma match_valid_matchData:
  assumes "trim d \<noteq> []" and "trim p \<noteq> []" and "res \<in> set [js ''Win'', js ''Loss'']"
    and "t \<in> set [js ''1st'', js ''2nd'']"
  shows "match_valid (matchData s n d p res t c)"
  using assms by (simp add: match_valid_def matchData_def)

lemma trim_examples [simp]:
  "trim (js ''Branded'') = js ''Branded''" "trim (js ''Orcust'') = js ''Orcust''"
  "trim (js ''Maliss'') = js ''Maliss''" "trim (js '' Maliss '') = js ''Maliss''"
  "trim (160 # js ''Maliss'' @ [8232]) = js ''Maliss''" "trim [160] = []"
  by (simp_all add: trim_def is_ws_def js_def)

text \<open>
  A deck that is one no-break space passes the check of the handler, is trimmed to the
  empty string and fails \<open>required\<close> when the session is saved.
\<close>

lemma blank_deck_rejected:
  "post_match 4 7 1
     \<lparr>req_deck = Some [160], req_opp = Some (js ''Orcust''), req_result = Some (js ''Win''),
      req_turn = Some (js ''1st''), req_customPointsAfter = None\<rparr> example_store =
     (Inl ServerError, example_store)"
  by (simp add: post_match_def findOne_def example_store_def save_def session_valid_def
      match_valid_def matchData_def wlw_session_def new_session_def add_match_def)

lemma session_valid_wlw: "session_valid wlw_session"
  by (simp add: session_valid_def match_valid_def wlw_session_def new_session_def add_match_def
      matchData_def)

lemma findOne_example: "findOne example_store 7 1 = Some wlw_session"
  by (simp add: findOne_def example_store_def wlw_session_def new_session_def add_match_def)

lemma result_set_fields:
  "result (set_fields b m) = assign id (req_result b) (result m)"
  by (simp add: set_fields_def Let_def split: option.splits)

lemma update_match_at:
  assumes "update_match i b s = Inr s'"
  shows "matches s' ! i = set_fields b (matches s ! i) \<and> i < length (matches s')"
proof -
  have r: "i < length (matches s)" using assms by (rule update_match_range)
  show ?thesis
  proof (cases "req_customPointsAfter b")
    case None
    then show ?thesis using update_match_None[OF r None] assms r by auto
  next
    case (Some c)
    then show ?thesis using update_match_Some[OF r Some] assms r by (auto simp: nth_append)
  qed
qed

lemma findIndex_99: "findIndex (\<lambda>m. mid m = 99) (matches wlw_session) = None"
  by (simp add: eval_defs)

text \<open>Every session a handler stores is reachable when the stored sessions were.\<close>

lemma findIndex_Some:
  "findIndex P xs = Some i \<Longrightarrow> i < length xs \<and> P (xs ! i)"
proof (induction xs arbitrary: i)
  case Nil
  then show ?case by simp
next
  case (Cons x xs)
  then show ?case by (cases "P x") auto
qed

lemma findOne_Some: "findOne db sid uid = Some s \<Longrightarrow> db sid = Some s"
  by (simp add: findOne_def split: option.splits if_splits)

lemma handlers_keep_reachable:
  assumes "\<forall>k s. db k = Some s \<longrightarrow> reachable s"
  shows "\<forall>k s. snd (post_match new_id sid uid b db) k = Some s \<longrightarrow> reachable s"
    and "\<forall>k s. snd (put_match sid matchId uid b db) k = Some s \<longrightarrow> reachable s"
    and "\<forall>k s. snd (delete_match_by_id sid matchId uid db) k = Some s \<longrightarrow> reachable s"
    and "\<forall>k s. snd (clear_all sid uid db) k = Some s \<longrightarrow> reachable s"
proof -
  have up: "\<forall>k s. (db(sid \<mapsto> s')) k = Some s \<longrightarrow> reachable s" if "reachable s'" for s'
    using assms that by simp
  show "\<forall>k s. snd (post_match new_id sid uid b db) k = Some s \<longrightarrow> reachable s"
  proof (cases "fst (post_match new_id sid uid b db)")
    case (Inl e)
    then have "snd (post_match new_id sid uid b db) = db"
      by (auto simp: post_match_def save_def Let_def split: option.splits if_splits)
    then show ?thesis using assms by simp
  next
    case (Inr r)
    then obtain s0 d p res t where
      "db sid = Some s0"
      "snd (post_match new_id sid uid b db) =
         db(sid \<mapsto> add_match new_id d p res t (req_customPointsAfter b) s0)"
      by (auto simp: post_match_def save_def Let_def split: option.splits if_splits
          dest: findOne_Some)
    then show ?thesis
      using up[OF reachable.appended] assms by metis
  qed
  show "\<forall>k s. snd (put_match sid matchId uid b db) k = Some s \<longrightarrow> reachable s"
  proof (cases "fst (put_match sid matchId uid b db)")
    case (Inl e)
    then have "snd (put_match sid matchId uid b db) = db"
      by (auto simp: put_match_def save_def Let_def split: option.splits if_splits sum.splits)
    then show ?thesis using assms by simp
  next
    case (Inr r)
    then obtain s0 i s' where
      "db sid = Some s0" "update_match i b s0 = Inr s'"
      "snd (put_match sid matchId uid b db) = db(sid \<mapsto> s')"
      by (auto simp: put_match_def save_def Let_def split: option.splits if_splits sum.splits
          dest: findOne_Some)
    then show ?thesis
      using up[OF reachable.edited] assms by metis
  qed
  show "\<forall>k s. snd (delete_match_by_id sid matchId uid db) k = Some s \<longrightarrow> reachable s"
  proof (cases "fst (delete_match_by_id sid matchId uid db)")
    case (Inl e)
    then have "snd (delete_match_by_id sid matchId uid db) = db"
      by (auto simp: delete_match_by_id_def save_def Let_def split: option.splits if_splits)
    then show ?thesis using assms by simp
  next
    case (Inr r)
    then obtain s0 i where
      "db sid = Some s0" "i < length (matches s0)"
      "snd (delete_match_by_id sid matchId uid db) = db(sid \<mapsto> delete_match i s0)"
      by (auto simp: delete_match_by_id_def save_def Let_def split: option.splits if_splits
          dest: findOne_Some findIndex_Some)
    then show ?thesis
      using up[OF reachable.deleted] assms by metis
  qed
  show "\<forall>k s. snd (clear_all sid uid db) k = Some s \<longrightarrow> reachable s"
  proof (cases "fst (clear_all sid uid db)")
    case (Inl e)
    then have "snd (clear_all sid uid db) = db"
      by (auto simp: clear_all_def save_def Let_def split: option.splits if_splits)
    then show ?thesis using assms by simp
  next
    case (Inr r)
    then obtain s0 where
      "db sid = Some s0"
      "snd (clear_all sid uid db) = db(sid \<mapsto> clear_matches s0)"
      by (auto simp: clear_all_def save_def Let_def split: option.splits if_splits
          dest: findOne_Some)
    then show ?thesis
      using up[OF reachable.cleared] assms by metis
  qed
qed

section \<open>Rounding in the scoring rule and in the win rate\<close>

lemma round_even_eval:
  assumes "of_int f \<le> z" and "z < of_int f + 1"
  shows "round_even z =
    (if z - of_int f < 1 / 2 then f else if 1 / 2 < z - of_int f then f + 1
     else if even f then f else f + 1)"
proof -
  have "\<lfloor>z\<rfloor> = f" using assms by (intro floor_unique) simp_all
  then show ?thesis by (simp add: round_even_def Let_def)
qed





lemma play_reachable: "reachable s \<Longrightarrow> reachable (play n res s)"
  by (induction n arbitrary: s) (simp_all add: reachable.appended)

lemma play_result: "map result (matches (play n res s)) = map result (matches s) @ replicate n res"
  by (induction n arbitrary: s) (simp_all add: matchData_def replicate_app_Cons_same)

lemma play_turn:
  "map turn (matches (play n res s)) = map turn (matches s) @ replicate n (js ''1st'')"
  by (induction n arbitrary: s) (simp_all add: matchData_def replicate_app_Cons_same)

lemma filter_result:
  "length (filter (\<lambda>m. result m = r) ms) = length (filter (\<lambda>x. x = r) (map result ms))"
  by (induction ms) simp_all

lemma long_session_counts:
  "length (matches long_session) = 400"
  "length (filter (\<lambda>m. result m = js ''Win'') (matches long_session)) = 201"
proof -
  have r: "map result (matches long_session) = replicate 201 (js ''Win'') @ replicate 199 (js ''Loss'')"
    by (simp add: long_session_def play_result new_session_def)
  show "length (matches long_session) = 400"
    using arg_cong[OF r, of length] by simp
  show "length (filter (\<lambda>m. result m = js ''Win'') (matches long_session)) = 201"
    unfolding filter_result r by simp
qed

lemma product_close:
  assumes "0 < n" and "w \<le> n"
  shows "\<bar>js_mul (js_div (of_nat w) (of_nat n)) 1000 - of_nat w / of_nat n * 1000\<bar> < 2 powi (- 42)"
proof -
  define x :: rat where "x = of_nat w / of_nat n"
  define q where "q = fl x"
  define y where "y = fl (q * 1000)"
  have x: "0 \<le> x" "x \<le> 1" using assms by (simp_all add: x_def)
  have "exponent x \<le> 0"
    using x by (intro exponent_le) simp_all
  then have "(2::rat) powi (exponent x - 53) \<le> 2 powi (- 53)"
    by (intro power_int_increasing) simp_all
  then have qx: "\<bar>q - x\<bar> \<le> 2 powi (- 53)"
    using fl_error[of x] unfolding q_def by linarith
  then have "\<bar>q\<bar> \<le> 1 + 2 powi (- 53)" using x by linarith
  then have "\<bar>q * 1000\<bar> < 2 powi (9 + 1)"
    by (simp add: abs_mult)
  then have "exponent (q * 1000) \<le> 9"
    by (intro exponent_le) simp_all
  then have "(2::rat) powi (exponent (q * 1000) - 53) \<le> 2 powi (- 44)"
    by (intro power_int_increasing) simp_all
  then have yq: "\<bar>y - q * 1000\<bar> \<le> 2 powi (- 44)"
    using fl_error[of "q * 1000"] unfolding y_def by linarith
  have "y - x * 1000 = (y - q * 1000) + (q - x) * 1000"
    by (simp add: algebra_simps)
  then have "\<bar>y - x * 1000\<bar> \<le> \<bar>y - q * 1000\<bar> + \<bar>(q - x) * 1000\<bar>"
    by (simp only: abs_triangle_ineq)
  also have "\<dots> = \<bar>y - q * 1000\<bar> + \<bar>q - x\<bar> * 1000"
    by (subst abs_mult) simp
  also have "\<dots> \<le> 2 powi (- 44) + 2 powi (- 53) * 1000"
    using yq mult_right_mono[OF qx, of 1000] by simp
  also have "\<dots> < 2 powi (- 42)" by simp
  finally show ?thesis
    by (simp add: y_def q_def x_def js_mul_def js_div_def)
qed

lemma round_exact:
  assumes "0 < n" and "w \<le> n" and "2 powi (- 42) \<le> tie_gap w n"
  shows "math_round (js_mul (js_div (of_nat w) (of_nat n)) 1000) = exact_round w n"
proof -
  define v :: rat where "v = of_nat w / of_nat n * 1000"
  define y where "y = js_mul (js_div (of_nat w) (of_nat n)) 1000"
  define K where "K = \<lfloor>v\<rfloor>"
  define f where "f = v - of_int K"
  have f: "0 \<le> f" "f < 1" unfolding f_def K_def by linarith+
  have v: "v = of_int K + f" unfolding f_def by simp
  have c: "\<bar>y - v\<bar> < 2 powi (- 42)"
    using product_close[OF assms(1,2)] by (simp add: y_def v_def)
  have g: "2 powi (- 42) \<le> \<bar>f - 1 / 2\<bar>"
    unfolding f_def K_def v_def using assms(3) unfolding tie_gap_def Let_def .
  have s: "(2::rat) powi (- 42) < 1 / 2" by simp
  have "\<lfloor>y + 1 / 2\<rfloor> = \<lfloor>v + 1 / 2\<rfloor>"
  proof (cases "f < 1 / 2")
    case True
    have 1: "of_int K \<le> v + 1 / 2" "v + 1 / 2 < of_int K + 1"
      using True f v by simp_all
    have 2: "of_int K \<le> y + 1 / 2" "y + 1 / 2 < of_int K + 1"
      using True f v c g s by linarith+
    show ?thesis
      using floor_unique[OF 1] floor_unique[OF 2] by simp
  next
    case False
    have 1: "of_int (K + 1) \<le> v + 1 / 2" "v + 1 / 2 < of_int (K + 1) + 1"
      using False f v by simp_all
    have 2: "of_int (K + 1) \<le> y + 1 / 2" "y + 1 / 2 < of_int (K + 1) + 1"
      using False f v c g s by (simp_all only: of_int_add of_int_1)
    show ?thesis
      using floor_unique[OF 1] floor_unique[OF 2] by simp
  qed
  then show ?thesis
    by (simp add: math_round_def exact_round_def round_def y_def v_def)
qed

lemma div_201_400: "js_div 201 400 = 4526117625507348 / 9007199254740992"
proof -
  have r: "round_even (201 / 400 * 9007199254740992) = 4526117625507348"
    by (subst round_even_eval[of 4526117625507348]) simp_all
  have "fl (201 / 400) = of_int (round_even (201 / 400 / 2 powi (- 1 - 52))) * 2 powi (- 1 - 52)"
    by (rule fl_at) simp_all
  then show ?thesis using r by (simp add: js_div_def)
qed

lemma mul_201_400:
  "js_mul (4526117625507348 / 9007199254740992) 1000 = 8840073487319039 / 17592186044416"
proof -
  have r: "round_even (4526117625507348 / 9007199254740992 * 1000 * 17592186044416) = 8840073487319039"
    by (subst round_even_eval[of 8840073487319039]) simp_all
  have "fl (4526117625507348 / 9007199254740992 * 1000) =
      of_int (round_even (4526117625507348 / 9007199254740992 * 1000 / 2 powi (8 - 52))) *
        2 powi (8 - 52)"
    by (rule fl_at) simp_all
  then show ?thesis using r by (simp add: js_mul_def)
qed

lemma rate_201_400: "rate 201 400 = fl (502 / 10)"
proof -
  have m: "math_round (8840073487319039 / 17592186044416) = 502"
    unfolding math_round_def by (rule floor_unique) simp_all
  have "rate 201 400 = js_div (of_int (math_round (js_mul (js_div 201 400) 1000))) 10"
    by (simp add: rate_def)
  also have "\<dots> = js_div (of_int 502) 10"
    unfolding div_201_400 mul_201_400 m ..
  also have "\<dots> = fl (502 / 10)"
    by (simp add: js_div_def)
  finally show ?thesis .
qed

lemma fl_502_10: "fl (502 / 10) = 7065021915437466 / 140737488355328"
proof -
  have r: "round_even (502 / 10 * 140737488355328) = 7065021915437466"
    by (subst round_even_eval[of 7065021915437465]) simp_all
  have "fl (502 / 10) = of_int (round_even (502 / 10 / 2 powi (5 - 52))) * 2 powi (5 - 52)"
    by (rule fl_at) simp_all
  then show ?thesis using r by simp
qed

lemma fl_503_10: "fl (503 / 10) = 7079095664272998 / 140737488355328"
proof -
  have r: "round_even (503 / 10 * 140737488355328) = 7079095664272998"
    by (subst round_even_eval[of 7079095664272998]) simp_all
  have "fl (503 / 10) = of_int (round_even (503 / 10 / 2 powi (5 - 52))) * 2 powi (5 - 52)"
    by (rule fl_at) simp_all
  then show ?thesis using r by simp
qed

lemma rate_exact:
  assumes "0 < n" and "w \<le> n" and "2 powi (- 42) \<le> tie_gap w n"
  shows "rate w n = js_div (of_int (exact_round w n)) 10"
  using assms round_exact[OF assms] by (simp add: rate_def)

lemma exact_round_1_3: "exact_round 1 3 = 333" "exact_round (Suc 0) 3 = 333"
proof -
  have "\<lfloor>(1000 / 3 + 1 / 2 :: rat)\<rfloor> = 333"
    by (rule floor_unique) simp_all
  then show "exact_round 1 3 = 333" "exact_round (Suc 0) 3 = 333"
    by (simp_all add: exact_round_def round_def)
qed

lemma tie_gap_1_3: "tie_gap 1 3 = 1 / 6" "tie_gap (Suc 0) 3 = 1 / 6"
proof -
  have "\<lfloor>(1000 / 3 :: rat)\<rfloor> = 333"
    by (rule floor_unique) simp_all
  then show "tie_gap 1 3 = 1 / 6" "tie_gap (Suc 0) 3 = 1 / 6"
    by (simp_all add: tie_gap_def Let_def)
qed

section \<open>The claims\<close>

text \<open>
  C1 (chain invariant). In every session reachable by appending, editing, deleting and
  clearing, a first match has \<open>pointsBefore\<close> equal to \<open>pointsStart\<close>, and every match
  at an index \<open>i > 0\<close> has \<open>pointsBefore\<close> equal to the \<open>pointsAfter\<close> of the match at
  \<open>i - 1\<close>.
\<close>

theorem chain_invariant:
  assumes "reachable s"
  shows "(matches s \<noteq> [] \<longrightarrow> pointsBefore (matches s ! 0) = pointsStart s) \<and>
    (\<forall>i. 0 < i \<and> i < length (matches s) \<longrightarrow>
       pointsBefore (matches s ! i) = pointsAfter (matches s ! (i - 1)))"
proof -
  have "chained (pointsStart s) (matches s)"
    using reachable_inv[OF assms] by simp
  then show ?thesis
    unfolding chained_iff_nth by (cases "matches s") auto
qed

theorem chain_invariant_witness:
  "reachable (delete_match 1 wlw_session) \<and> matches (delete_match 1 wlw_session) \<noteq> [] \<and>
   pointsBefore (matches (delete_match 1 wlw_session) ! 0) = pointsStart (delete_match 1 wlw_session) \<and>
   (0::nat) < 1 \<and> 1 < length (matches (delete_match 1 wlw_session)) \<and>
   pointsBefore (matches (delete_match 1 wlw_session) ! 1) =
     pointsAfter (matches (delete_match 1 wlw_session) ! (1 - 1))"
proof -
  have r: "reachable (delete_match 1 wlw_session)"
    by (rule reachable.deleted[OF reachable_wlw]) (simp add: wlw_length)
  have n: "length (matches (delete_match 1 wlw_session)) = 2"
    by (simp add: delete_match_eq wlw_length)
  then have ne: "matches (delete_match 1 wlw_session) \<noteq> []" by auto
  show ?thesis
    using chain_invariant[OF r] r n ne by simp
qed

text \<open>
  C2 (override precedence). Editing the match at a valid index \<open>i\<close> of a reachable
  session with \<open>customPointsAfter = X\<close> succeeds and sets that match's \<open>pointsAfter\<close>
  (and override) to \<open>X\<close>, whatever the result in the payload or in the match; the
  matches after \<open>i\<close> are the forward recompute of the old ones from the chain starting
  at \<open>X\<close>; and every later match that has an override of its own keeps it and ends with
  \<open>pointsAfter\<close> equal to it.
\<close>

theorem override_precedence:
  assumes "reachable s" and "i < length (matches s)" and "req_customPointsAfter b = Some X"
  shows "\<exists>s'. update_match i b s = Inr s' \<and>
    length (matches s') = length (matches s) \<and>
    pointsAfter (matches s' ! i) = X \<and>
    customPointsAfter (matches s' ! i) = Some X \<and>
    drop (Suc i) (matches s') =
      forward_recompute (pointsFormula s) X (drop (Suc i) (matches s)) \<and>
    (\<forall>j c. i < j \<and> j < length (matches s') \<and> customPointsAfter (matches s' ! j) = Some c \<longrightarrow>
       pointsAfter (matches s' ! j) = c \<and> customPointsAfter (matches s ! j) = Some c)"
proof -
  let ?ms = "matches s"
  let ?m' = "set_fields b (?ms ! i)"
  let ?rest = "forward_recompute (pointsFormula s) X (drop (Suc i) ?ms)"
  let ?s' = "s\<lparr>matches := take i ?ms @ ?m' # ?rest\<rparr>"
  have pn: "list_all pinned (drop (Suc i) ?ms)"
    using reachable_inv[OF assms(1)] by (metis append_take_drop_id list_all_append)
  have u: "update_match i b s = Inr ?s'"
    by (simp add: update_match_Some[OF assms(2,3)] recalc_from_forward[OF pn])
  have len: "length (matches ?s') = length ?ms"
    using assms(2) by simp
  have at: "matches ?s' ! i = ?m'"
    using assms(2) by (simp add: nth_append)
  have dr: "drop (Suc i) (matches ?s') = ?rest"
    using assms(2) by simp
  have later: "pointsAfter (matches ?s' ! j) = c \<and> customPointsAfter (?ms ! j) = Some c"
    if "i < j" "j < length (matches ?s')" "customPointsAfter (matches ?s' ! j) = Some c" for j c
  proof -
    have j: "j - Suc i < length ?rest" using that(1,2) assms(2) by simp
    have n: "matches ?s' ! j = ?rest ! (j - Suc i)"
      using that(1) assms(2) by (simp add: nth_append)
    have c: "customPointsAfter (?rest ! (j - Suc i)) = Some c"
      using that(3) unfolding n .
    have "pinned (?rest ! (j - Suc i))"
      using pinned_forward[of "pointsFormula s" X "drop (Suc i) ?ms"] j
      by (simp add: list_all_length)
    then have a: "pointsAfter (?rest ! (j - Suc i)) = c"
      using c by (simp add: pinned_def)
    have "customPointsAfter (?rest ! (j - Suc i)) = customPointsAfter (drop (Suc i) ?ms ! (j - Suc i))"
      using j by (intro forward_custom) simp
    also have "\<dots> = customPointsAfter (?ms ! j)"
      using that(1) assms(2) by simp
    finally show ?thesis using a c unfolding n by simp
  qed
  show ?thesis
    using u len at dr later assms(3) by (intro exI[of _ ?s']) (simp add: set_fields_Some)
qed

theorem override_precedence_witness:
  "reachable wlwo_session \<and> 0 < length (matches wlwo_session) \<and>
   req_customPointsAfter \<lparr>req_deck = None, req_opp = None, req_result = Some (js ''Loss''),
     req_turn = None, req_customPointsAfter = Some 1600\<rparr> = Some 1600 \<and>
   (\<exists>s'. update_match 0 \<lparr>req_deck = None, req_opp = None, req_result = Some (js ''Loss''),
        req_turn = None, req_customPointsAfter = Some 1600\<rparr> wlwo_session = Inr s' \<and>
      map (\<lambda>m. (result m, pointsBefore m, pointsAfter m, customPointsAfter m)) (matches s') =
        [((js ''Loss''), 1500, 1600, Some 1600), ((js ''Loss''), 1600, 1593, None),
         ((js ''Win''), 1593, 1600, None), ((js ''Loss''), 1600, 2000, Some 2000)])"
proof -
  let ?b = "\<lparr>req_deck = None, req_opp = None, req_result = Some (js ''Loss''),
     req_turn = None, req_customPointsAfter = Some 1600\<rparr>"
  have l: "0 < length (matches wlwo_session)"
    by (simp add: wlwo_session_def)
  obtain s' where s': "update_match 0 ?b wlwo_session = Inr s'"
    using override_precedence[OF reachable_wlwo l, of ?b 1600] by auto
  have "update_match 0 ?b wlwo_session = Inr s' \<and>
      map (\<lambda>m. (result m, pointsBefore m, pointsAfter m, customPointsAfter m)) (matches s') =
        [((js ''Loss''), 1500, 1600, Some 1600), ((js ''Loss''), 1600, 1593, None),
         ((js ''Win''), 1593, 1600, None), ((js ''Loss''), 1600, 2000, Some 2000)]"
    using s' by (auto simp add: eval_defs)
  then show ?thesis using reachable_wlwo l by auto
qed

text \<open>
  C3 (delete recompute). Deleting the match at an index \<open>k\<close> of a reachable session
  removes it (the list is one shorter and the matches before \<open>k\<close> are untouched) and
  re-derives every match from index \<open>k\<close> on, in order, by the forward recompute started
  with the \<open>pointsAfter\<close> of the match now at \<open>k - 1\<close>, or with \<open>pointsStart\<close> when
  \<open>k = 0\<close>. Under \<open>rated\<close> from 1500 with a win, a loss and a win, deleting the second
  match leaves the chain 1500, 1507, 1514.
\<close>

theorem delete_recompute:
  assumes "reachable s" and "k < length (matches s)"
  shows "length (matches (delete_match k s)) = length (matches s) - 1 \<and>
    take k (matches (delete_match k s)) = take k (matches s) \<and>
    drop k (matches (delete_match k s)) =
      forward_recompute (pointsFormula s)
        (if k = 0 then pointsStart s else pointsAfter (matches (delete_match k s) ! (k - 1)))
        (drop (Suc k) (matches s)) \<and>
    map (\<lambda>m. (pointsBefore m, pointsAfter m)) (matches (delete_match 1 wlw_session)) =
      [(1500, 1507), (1507, 1514)]"
proof -
  let ?ms = "matches s" and ?ms' = "matches (delete_match k s)"
  have pn: "list_all pinned (drop (Suc k) ?ms)"
    using reachable_inv[OF assms(1)] by (metis append_take_drop_id list_all_append)
  have eq: "?ms' = take k ?ms @
      forward_recompute (pointsFormula s) (carry (pointsStart s) (take k ?ms)) (drop (Suc k) ?ms)"
    by (simp add: delete_match_eq[OF assms(2)] recalc_from_forward[OF pn])
  have len: "length ?ms' = length ?ms - 1"
    using assms(2) by (simp add: eq)
  have tk: "take k ?ms' = take k ?ms"
    using assms(2) by (simp add: eq)
  have pr: "carry (pointsStart s) (take k ?ms) =
      (if k = 0 then pointsStart s else pointsAfter (?ms' ! (k - 1)))"
  proof (cases k)
    case 0
    then show ?thesis by (simp add: carry_def)
  next
    case (Suc j)
    then have "take k ?ms = take j ?ms @ [?ms ! j]"
      using assms(2) by (simp add: take_Suc_conv_app_nth)
    moreover have "j < k" using Suc by simp
    then have "?ms' ! j = ?ms ! j"
      using arg_cong[OF tk, of "\<lambda>xs. xs ! j"] by simp
    ultimately show ?thesis using Suc by (simp add: carry_def)
  qed
  have dr: "drop k ?ms' = forward_recompute (pointsFormula s)
      (if k = 0 then pointsStart s else pointsAfter (?ms' ! (k - 1))) (drop (Suc k) ?ms)"
    using assms(2) by (subst (1) eq) (simp add: pr)
  have ex: "map (\<lambda>m. (pointsBefore m, pointsAfter m)) (matches (delete_match 1 wlw_session)) =
      [(1500, 1507), (1507, 1514)]"
    by (simp add: wlw_session_def new_session_def add_match_def matchData_def last_points_def
      new_points_def calc_points_def js_add_def js_sub_def delete_match_def splice1_def delete_loop.simps recalc_def)
  show ?thesis using len tk dr ex by simp
qed

theorem delete_recompute_witness:
  "reachable wlwo_session \<and> 1 < length (matches wlwo_session) \<and>
   length (matches (delete_match 1 wlwo_session)) = 3 \<and>
   map (\<lambda>m. (pointsBefore m, pointsAfter m)) (matches (delete_match 1 wlwo_session)) =
     [(1500, 1507), (1507, 1514), (1514, 2000)]"
proof -
  have l: "length (matches wlwo_session) = 4"
    by (simp add: wlwo_session_def wlw_length)
  have p: "map (\<lambda>m. (pointsBefore m, pointsAfter m)) (matches (delete_match 1 wlwo_session)) =
     [(1500, 1507), (1507, 1514), (1514, 2000)]"
    by (simp add: wlwo_session_def wlw_session_def new_session_def add_match_def matchData_def
      last_points_def new_points_def calc_points_def js_add_def js_sub_def delete_match_def splice1_def
      delete_loop.simps recalc_def)
  show ?thesis
    using delete_recompute[OF reachable_wlwo, of 1] l p reachable_wlwo by simp
qed

text \<open>
  C4 (append postcondition). For a stored, valid session and a valid payload (the four
  fields present, deck and opponent not empty after \<open>String.prototype.trim\<close>, result and
  turn in their enumerations),
  the append succeeds and stores the session with exactly one new match at the end: its
  \<open>pointsBefore\<close> is the \<open>pointsAfter\<close> of the former last match, or \<open>pointsStart\<close>
  when there was none; its \<open>pointsAfter\<close> is the override when the payload has one and
  the scoring rule on \<open>pointsBefore\<close>, the result and the formula otherwise. The list
  is one longer and the matches that were there are unchanged.
\<close>

theorem append_postcondition:
  assumes "findOne db sid uid = Some s" and "session_valid s"
    and "req_deck b = Some d" and "req_opp b = Some p"
    and "req_result b = Some res" and "req_turn b = Some t"
    and "trim d \<noteq> []" and "trim p \<noteq> []"
    and "res \<in> set [js ''Win'', js ''Loss'']" and "t \<in> set [js ''1st'', js ''2nd'']"
  shows "\<exists>m s'. post_match new_id sid uid b db = (Inr (m, s'), db(sid \<mapsto> s')) \<and>
    matches s' = matches s @ [m] \<and>
    length (matches s') = length (matches s) + 1 \<and>
    take (length (matches s)) (matches s') = matches s \<and>
    pointsBefore m =
      (if matches s = [] then pointsStart s else pointsAfter (last (matches s))) \<and>
    pointsAfter m =
      (case req_customPointsAfter b of
         Some c \<Rightarrow> c
       | None \<Rightarrow> calc_points (pointsFormula s) res (pointsBefore m)) \<and>
    customPointsAfter m = req_customPointsAfter b \<and>
    result m = res \<and> turn m = t \<and> deck m = trim d \<and> opp m = trim p \<and>
    pointsStart s' = pointsStart s \<and> pointsFormula s' = pointsFormula s \<and> user s' = user s"
proof -
  let ?m = "matchData s new_id d p res t (req_customPointsAfter b)"
  let ?s' = "add_match new_id d p res t (req_customPointsAfter b) s"
  have ne: "d \<noteq> []" "p \<noteq> []" "res \<noteq> []" "t \<noteq> []"
    using assms(7-10) by (auto dest: trim_nonempty)
  have v: "session_valid ?s'"
    using assms(2) match_valid_matchData[OF assms(7-10)]
    by (simp add: session_valid_def)
  have l: "last (matches ?s') = ?m" by simp
  have post: "post_match new_id sid uid b db = (Inr (?m, ?s'), db(sid \<mapsto> ?s'))"
    using assms(1,3-6) ne v by (simp add: post_match_def save_def Let_def)
  have pts: "pointsBefore ?m = (if matches s = [] then pointsStart s else pointsAfter (last (matches s)))"
    "pointsAfter ?m = (case req_customPointsAfter b of Some c \<Rightarrow> c
       | None \<Rightarrow> calc_points (pointsFormula s) res (pointsBefore ?m))"
    "customPointsAfter ?m = req_customPointsAfter b"
    "result ?m = res" "turn ?m = t" "deck ?m = trim d" "opp ?m = trim p"
    by (simp_all add: matchData_def last_points_def new_points_def split: option.splits)
  show ?thesis
    using post pts by (intro exI[of _ ?m] exI[of _ ?s']) simp
qed

theorem append_postcondition_witness:
  "findOne example_store 7 1 = Some wlw_session \<and> session_valid wlw_session \<and>
   trim (160 # js ''Maliss'' @ [8232]) \<noteq> [] \<and> trim (js ''Orcust'') \<noteq> [] \<and>
   (js ''Win'') \<in> set [js ''Win'', js ''Loss''] \<and> (js ''2nd'') \<in> set [js ''1st'', js ''2nd''] \<and>
   (\<exists>m s'. post_match 4 7 1
        \<lparr>req_deck = Some (160 # js ''Maliss'' @ [8232]), req_opp = Some (js ''Orcust''), req_result = Some (js ''Win''),
         req_turn = Some (js ''2nd''), req_customPointsAfter = None\<rparr> example_store =
        (Inr (m, s'), example_store(7 \<mapsto> s')) \<and>
      matches s' = matches wlw_session @ [m] \<and>
      deck m = js ''Maliss'' \<and> pointsBefore m = 1507 \<and> pointsAfter m = 1514)"
proof -
  let ?b = "\<lparr>req_deck = Some (160 # js ''Maliss'' @ [8232]), req_opp = Some (js ''Orcust''), req_result = Some (js ''Win''),
         req_turn = Some (js ''2nd''), req_customPointsAfter = None\<rparr>"
  have t: "trim (160 # js ''Maliss'' @ [8232]) = js ''Maliss''" "trim (js ''Orcust'') = js ''Orcust''"
    by simp_all
  have e: "(js ''Win'') \<in> set [js ''Win'', js ''Loss'']" "(js ''2nd'') \<in> set [js ''1st'', js ''2nd'']"
    by simp_all
  have l: "matches wlw_session \<noteq> []" "pointsAfter (last (matches wlw_session)) = 1507"
    "pointsFormula wlw_session = js ''rated''"
    by (simp_all add: eval_defs)
  obtain m s' where h:
    "post_match 4 7 1 ?b example_store = (Inr (m, s'), example_store(7 \<mapsto> s'))"
    "matches s' = matches wlw_session @ [m]"
    "pointsBefore m = (if matches wlw_session = [] then pointsStart wlw_session
       else pointsAfter (last (matches wlw_session)))"
    "pointsAfter m = (case req_customPointsAfter ?b of Some c \<Rightarrow> c
       | None \<Rightarrow> calc_points (pointsFormula wlw_session) (js ''Win'') (pointsBefore m))"
    "deck m = trim (160 # js ''Maliss'' @ [8232])"
    using append_postcondition[OF findOne_example session_valid_wlw, of ?b "(160 # js ''Maliss'' @ [8232])"
        "(js ''Orcust'')" "(js ''Win'')" "(js ''2nd'')" 4]
    unfolding t by auto
  have "pointsBefore m = 1507" "pointsAfter m = 1514" "deck m = js ''Maliss''"
    using h(3,4,5) l t by (simp_all add: calc_points_def js_add_def js_sub_def)
  then show ?thesis
    using h(1,2) findOne_example session_valid_wlw t by auto
qed




text \<open>
  C6 (edit without override is a frame). An edit at a valid index whose payload has no
  \<open>customPointsAfter\<close> runs no forward recompute: every other match is unchanged, and
  so are \<open>pointsBefore\<close> and \<open>pointsAfter\<close> of the edited match, also when the edit
  changes its result.
\<close>

theorem edit_without_override_frame:
  assumes "i < length (matches s)" and "req_customPointsAfter b = None"
  shows "\<exists>s'. update_match i b s = Inr s' \<and>
    length (matches s') = length (matches s) \<and>
    (\<forall>j. j < length (matches s) \<and> j \<noteq> i \<longrightarrow> matches s' ! j = matches s ! j) \<and>
    pointsBefore (matches s' ! i) = pointsBefore (matches s ! i) \<and>
    pointsAfter (matches s' ! i) = pointsAfter (matches s ! i) \<and>
    result (matches s' ! i) = assign id (req_result b) (result (matches s ! i))"
proof -
  have r: "result (set_fields b m) = assign id (req_result b) (result m)" for m
    using assms(2) by (simp add: set_fields_def Let_def)
  show ?thesis
    using assms by (simp add: update_match_None set_fields_None r)
qed

theorem edit_without_override_frame_witness:
  "1 < length (matches wlw_session) \<and>
   req_customPointsAfter \<lparr>req_deck = None, req_opp = None, req_result = Some (js ''Win''),
     req_turn = None, req_customPointsAfter = None\<rparr> = None \<and>
   (\<exists>s'. update_match 1 \<lparr>req_deck = None, req_opp = None, req_result = Some (js ''Win''),
        req_turn = None, req_customPointsAfter = None\<rparr> wlw_session = Inr s' \<and>
      map (\<lambda>m. (result m, pointsBefore m, pointsAfter m)) (matches wlw_session) =
        [((js ''Win''), 1500, 1507), ((js ''Loss''), 1507, 1500), ((js ''Win''), 1500, 1507)] \<and>
      map (\<lambda>m. (result m, pointsBefore m, pointsAfter m)) (matches s') =
        [((js ''Win''), 1500, 1507), ((js ''Win''), 1507, 1500), ((js ''Win''), 1500, 1507)])"
proof -
  let ?b = "\<lparr>req_deck = None, req_opp = None, req_result = Some (js ''Win''),
     req_turn = None, req_customPointsAfter = None\<rparr>"
  have l: "1 < length (matches wlw_session)"
    by (simp add: wlw_length)
  obtain s' where s': "update_match 1 ?b wlw_session = Inr s'"
    using edit_without_override_frame[OF l, of ?b] by auto
  have "update_match 1 ?b wlw_session = Inr s' \<and>
      map (\<lambda>m. (result m, pointsBefore m, pointsAfter m)) (matches wlw_session) =
        [((js ''Win''), 1500, 1507), ((js ''Loss''), 1507, 1500), ((js ''Win''), 1500, 1507)] \<and>
      map (\<lambda>m. (result m, pointsBefore m, pointsAfter m)) (matches s') =
        [((js ''Win''), 1500, 1507), ((js ''Win''), 1507, 1500), ((js ''Win''), 1500, 1507)]"
    using s' by (auto simp add: eval_defs)
  then show ?thesis using l by auto
qed

text \<open>
  C7 (errors leave the session as it was). Whenever the append, edit or delete handler
  answers with an error, the store, and with it the match list of every session, is what
  it was before the call. A missing field is answered 400 and an unresolved session or
  match 404, both before the handler touches the document it loaded. A result outside
  \<open>Win\<close> and \<open>Loss\<close> is rejected by the validation of \<open>save\<close>: the handler has
  then worked on its own copy of the document, which is dropped, and nothing has been
  written to the session.
\<close>

theorem error_atomicity:
  "(fst (post_match new_id sid uid b db) = Inl e \<longrightarrow> snd (post_match new_id sid uid b db) = db) \<and>
   (fst (put_match sid matchId uid b db) = Inl e \<longrightarrow> snd (put_match sid matchId uid b db) = db) \<and>
   (fst (delete_match_by_id sid matchId uid db) = Inl e \<longrightarrow>
      snd (delete_match_by_id sid matchId uid db) = db) \<and>
   (req_result b = None \<longrightarrow> post_match new_id sid uid b db = (Inl BadRequest, db)) \<and>
   (findOne db sid uid = None \<longrightarrow>
      put_match sid matchId uid b db = (Inl NotFound, db) \<and>
      delete_match_by_id sid matchId uid db = (Inl NotFound, db)) \<and>
   (\<forall>s. findOne db sid uid = Some s \<and> findIndex (\<lambda>m. mid m = matchId) (matches s) = None \<longrightarrow>
      put_match sid matchId uid b db = (Inl NotFound, db) \<and>
      delete_match_by_id sid matchId uid db = (Inl NotFound, db)) \<and>
   (\<forall>s d p res t. findOne db sid uid = Some s \<and> req_deck b = Some d \<and> req_opp b = Some p \<and>
        req_result b = Some res \<and> req_turn b = Some t \<and> res \<notin> set [js ''Win'', js ''Loss''] \<longrightarrow>
      (\<exists>e'. post_match new_id sid uid b db = (Inl e', db))) \<and>
   (\<forall>s res. findOne db sid uid = Some s \<and> req_result b = Some res \<and> res \<noteq> [] \<and>
        res \<notin> set [js ''Win'', js ''Loss''] \<longrightarrow>
      (\<exists>e'. put_match sid matchId uid b db = (Inl e', db)))"
proof -
  have a: "fst (post_match new_id sid uid b db) = Inl e \<longrightarrow> snd (post_match new_id sid uid b db) = db"
    by (auto simp: post_match_def save_def Let_def split: option.splits if_splits)
  have b: "fst (put_match sid matchId uid b db) = Inl e \<longrightarrow> snd (put_match sid matchId uid b db) = db"
    by (auto simp: put_match_def save_def Let_def split: option.splits if_splits sum.splits)
  have c: "fst (delete_match_by_id sid matchId uid db) = Inl e \<longrightarrow>
      snd (delete_match_by_id sid matchId uid db) = db"
    by (auto simp: delete_match_by_id_def save_def Let_def split: option.splits if_splits)
  have d: "req_result b = None \<longrightarrow> post_match new_id sid uid b db = (Inl BadRequest, db)"
    by (simp add: post_match_def split: option.splits)
  have e: "findOne db sid uid = None \<longrightarrow>
      put_match sid matchId uid b db = (Inl NotFound, db) \<and>
      delete_match_by_id sid matchId uid db = (Inl NotFound, db)"
    by (simp add: put_match_def delete_match_by_id_def)
  have f: "\<forall>s. findOne db sid uid = Some s \<and> findIndex (\<lambda>m. mid m = matchId) (matches s) = None \<longrightarrow>
      put_match sid matchId uid b db = (Inl NotFound, db) \<and>
      delete_match_by_id sid matchId uid db = (Inl NotFound, db)"
    by (simp add: put_match_def delete_match_by_id_def)
  have g: "\<exists>e'. post_match new_id sid uid b db = (Inl e', db)"
    if h: "findOne db sid uid = Some s" "req_deck b = Some d" "req_opp b = Some p"
      "req_result b = Some res" "req_turn b = Some t" "res \<notin> set [js ''Win'', js ''Loss'']"
    for s d p res t
  proof -
    have "\<not> match_valid (matchData s new_id d p res t (req_customPointsAfter b))"
      using h(6) by (simp add: match_valid_def matchData_def)
    then have "\<not> session_valid (add_match new_id d p res t (req_customPointsAfter b) s)"
      by (simp add: session_valid_def)
    then show ?thesis
      using h(1-5) by (simp add: post_match_def save_def Let_def)
  qed
  have g': "\<forall>s d p res t. findOne db sid uid = Some s \<and> req_deck b = Some d \<and> req_opp b = Some p \<and>
        req_result b = Some res \<and> req_turn b = Some t \<and> res \<notin> set [js ''Win'', js ''Loss''] \<longrightarrow>
      (\<exists>e'. post_match new_id sid uid b db = (Inl e', db))"
    using g by blast
  have k: "\<exists>e'. put_match sid matchId uid b db = (Inl e', db)"
    if h: "findOne db sid uid = Some s" "req_result b = Some res" "res \<noteq> []"
      "res \<notin> set [js ''Win'', js ''Loss'']"
    for s res
  proof (cases "findIndex (\<lambda>m. mid m = matchId) (matches s)")
    case None
    then show ?thesis using h(1) by (simp add: put_match_def)
  next
    case (Some idx)
    show ?thesis
    proof (cases "update_match idx b s")
      case (Inl e')
      then show ?thesis using h(1) Some by (simp add: put_match_def)
    next
      case (Inr s')
      have "result (matches s' ! idx) = res"
        using update_match_at[OF Inr] h(2,3) by (simp add: result_set_fields assign_def)
      then have "\<not> match_valid (matches s' ! idx)"
        using h(4) by (simp add: match_valid_def)
      moreover have "idx < length (matches s')"
        using update_match_at[OF Inr] by simp
      ultimately have "\<not> session_valid s'"
        by (auto simp: session_valid_def list_all_length)
      then show ?thesis
        using h(1) Some Inr by (simp add: put_match_def save_def)
    qed
  qed
  have k': "\<forall>s res. findOne db sid uid = Some s \<and> req_result b = Some res \<and> res \<noteq> [] \<and>
        res \<notin> set [js ''Win'', js ''Loss''] \<longrightarrow>
      (\<exists>e'. put_match sid matchId uid b db = (Inl e', db))"
    using k by blast
  show ?thesis
    by (intro conjI a b c d e f g' k')
qed

theorem error_atomicity_witness:
  "post_match 4 7 1
     \<lparr>req_deck = Some (js ''Branded''), req_opp = Some (js ''Orcust''), req_result = Some (js ''Draw''),
      req_turn = Some (js ''1st''), req_customPointsAfter = None\<rparr> example_store =
     (Inl ServerError, example_store) \<and>
   post_match 4 7 1
     \<lparr>req_deck = Some (js ''Branded''), req_opp = Some (js ''Orcust''), req_result = None,
      req_turn = Some (js ''1st''), req_customPointsAfter = None\<rparr> example_store =
     (Inl BadRequest, example_store) \<and>
   put_match 7 2 1
     \<lparr>req_deck = None, req_opp = None, req_result = Some (js ''Draw''),
      req_turn = None, req_customPointsAfter = Some 1600\<rparr> example_store =
     (Inl ServerError, example_store) \<and>
   put_match 7 99 1
     \<lparr>req_deck = None, req_opp = None, req_result = Some (js ''Win''),
      req_turn = None, req_customPointsAfter = Some 1600\<rparr> example_store =
     (Inl NotFound, example_store) \<and>
   delete_match_by_id 8 2 1 example_store = (Inl NotFound, example_store) \<and>
   delete_match_by_id 7 2 5 example_store = (Inl NotFound, example_store)"
proof -
  let ?draw = "\<lparr>req_deck = Some (js ''Branded''), req_opp = Some (js ''Orcust''), req_result = Some (js ''Draw''),
      req_turn = Some (js ''1st''), req_customPointsAfter = None\<rparr>"
  let ?none = "\<lparr>req_deck = Some (js ''Branded''), req_opp = Some (js ''Orcust''), req_result = None,
      req_turn = Some (js ''1st''), req_customPointsAfter = None\<rparr>"
  let ?edit = "\<lparr>req_deck = None, req_opp = None, req_result = Some (js ''Draw''),
      req_turn = None, req_customPointsAfter = Some 1600\<rparr>"
  let ?miss = "\<lparr>req_deck = None, req_opp = None, req_result = Some (js ''Win''),
      req_turn = None, req_customPointsAfter = Some 1600\<rparr>"
  have n: "findOne example_store 8 1 = None" "findOne example_store 7 5 = None"
    by (simp_all add: findOne_def example_store_def wlw_session_def new_session_def add_match_def)
  have 1: "fst (post_match 4 7 1 ?draw example_store) = Inl ServerError"
    using findOne_example
    by (simp add: post_match_def save_def session_valid_def match_valid_def matchData_def)
  have 2: "fst (post_match 4 7 1 ?none example_store) = Inl BadRequest"
    by (simp add: post_match_def)
  have 3: "fst (put_match 7 2 1 ?edit example_store) = Inl ServerError"
    using findOne_example
    by (simp add: put_match_def save_def session_valid_def match_valid_def eval_defs)
  have 4: "fst (put_match 7 99 1 ?miss example_store) = Inl NotFound"
    using findOne_example by (simp add: put_match_def findIndex_99)
  have 5: "fst (delete_match_by_id 8 2 1 example_store) = Inl NotFound"
    "fst (delete_match_by_id 7 2 5 example_store) = Inl NotFound"
    using n by (simp_all add: delete_match_by_id_def)
  show ?thesis
    using error_atomicity[of 4 7 1 ?draw example_store ServerError]
      error_atomicity[of 4 7 1 ?none example_store BadRequest]
      error_atomicity[of _ 7 1 ?edit example_store ServerError 2]
      error_atomicity[of _ 7 1 ?miss example_store NotFound 99]
      error_atomicity[of _ 8 1 _ example_store NotFound 2]
      error_atomicity[of _ 7 5 _ example_store NotFound 2]
      1 2 3 4 5
    by (simp add: prod_eq_iff)
qed

text \<open>
  C8 (idempotent recompute). Running either recompute loop of the source a second time,
  from the same index, on the list the first run produced changes nothing: the loop of
  the delete route from any index \<open>i\<close> (prior points \<open>pointsStart\<close> at 0 and the
  previous match's \<open>pointsAfter\<close> otherwise), and the loop of the edit route from any
  index \<open>matchIndex + 1\<close>, which always returns. The forward recompute in the wording
  of the specification is idempotent as well.
\<close>

theorem recompute_idempotent:
  "delete_loop f st i (delete_loop f st i ms) = delete_loop f st i ms \<and>
   (\<exists>ms'. update_loop f (Suc j) ms = Inr ms' \<and> update_loop f (Suc j) ms' = Inr ms') \<and>
   forward_recompute f st (forward_recompute f st ms) = forward_recompute f st ms"
proof -
  obtain ms' where m: "update_loop f (Suc j) ms = Inr ms'"
    using update_loop_eq by blast
  then have "update_loop f (Suc j) ms' = Inr ms'" by (rule update_loop_idem)
  with m show ?thesis by (simp add: delete_loop_idem forward_idem)
qed

theorem recompute_idempotent_witness:
  "map (\<lambda>m. (pointsBefore m, pointsAfter m))
     (delete_loop (js ''rated'') 1500 1 (splice1 1 (matches wlwo_session))) =
     [(1500, 1507), (1507, 1514), (1514, 2000)] \<and>
   delete_loop (js ''rated'') 1500 1 (delete_loop (js ''rated'') 1500 1 (splice1 1 (matches wlwo_session))) =
     delete_loop (js ''rated'') 1500 1 (splice1 1 (matches wlwo_session))"
proof -
  have "map (\<lambda>m. (pointsBefore m, pointsAfter m))
     (delete_loop (js ''rated'') 1500 1 (splice1 1 (matches wlwo_session))) =
     [(1500, 1507), (1507, 1514), (1514, 2000)]"
    by (simp add: eval_defs)
  then show ?thesis
    using recompute_idempotent[of "(js ''rated'')" 1500 1 "splice1 1 (matches wlwo_session)" 0]
    by simp
qed

text \<open>
  C9 (session statistics). The win rate is
  \<open>Math.round((wins / total) * 1000) / 10\<close> in the arithmetic of doubles, the quotient,
  the product and the division by 10 each rounded to the nearest double, when there are
  matches and 0 otherwise. It is the double nearest to \<open>round(wins / total * 1000) / 10\<close>
  whenever \<open>wins / total * 1000\<close> is at least \<open>2^-42\<close> away from every number halfway
  between two integers. The win rates going first and going second are the same
  computation over the matches with that turn value, and 0 when there are none. The
  current points are the last match's \<open>pointsAfter\<close>, or \<open>pointsStart\<close> without
  matches; the peak is the greatest of \<open>pointsStart\<close> and every \<open>pointsAfter\<close>. One
  win in three matches gives the double 33.3.
\<close>

theorem session_aggregate_stats:
  "total (session_stats s) = length (matches s) \<and>
   wins (session_stats s) = length (filter (\<lambda>m. result m = js ''Win'') (matches s)) \<and>
   losses (session_stats s) = total (session_stats s) - wins (session_stats s) \<and>
   winRate (session_stats s) = rate (wins (session_stats s)) (total (session_stats s)) \<and>
   winRate1st (session_stats s) =
     (let sub = filter (\<lambda>m. turn m = js ''1st'') (matches s)
      in rate (length (filter (\<lambda>m. result m = js ''Win'') sub)) (length sub)) \<and>
   winRate2nd (session_stats s) =
     (let sub = filter (\<lambda>m. turn m = js ''2nd'') (matches s)
      in rate (length (filter (\<lambda>m. result m = js ''Win'') sub)) (length sub)) \<and>
   (\<forall>w n. rate w n =
      (if n = 0 then 0
       else fl (of_int \<lfloor>fl (fl (of_nat w / of_nat n) * 1000) + 1 / 2\<rfloor> / 10))) \<and>
   (\<forall>w n. 0 < n \<and> w \<le> n \<and> 2 powi (- 42) \<le> tie_gap w n \<longrightarrow>
      rate w n = fl (of_int (exact_round w n) / 10)) \<and>
   currentPoints (session_stats s) =
     (if matches s = [] then pointsStart s else pointsAfter (last (matches s))) \<and>
   peakPoints (session_stats s) = Max (insert (pointsStart s) (pointsAfter ` set (matches s))) \<and>
   (total (session_stats s) = 3 \<and> wins (session_stats s) = 1 \<longrightarrow>
      winRate (session_stats s) = fl (333 / 10))"
proof -
  have a: "total (session_stats s) = length (matches s)"
    "wins (session_stats s) = length (filter (\<lambda>m. result m = js ''Win'') (matches s))"
    "losses (session_stats s) = total (session_stats s) - wins (session_stats s)"
    "winRate (session_stats s) = rate (wins (session_stats s)) (total (session_stats s))"
    by (simp_all add: session_stats_def Let_def)
  have b: "winRate1st (session_stats s) =
     (let sub = filter (\<lambda>m. turn m = js ''1st'') (matches s)
      in rate (length (filter (\<lambda>m. result m = js ''Win'') sub)) (length sub))"
    "winRate2nd (session_stats s) =
     (let sub = filter (\<lambda>m. turn m = js ''2nd'') (matches s)
      in rate (length (filter (\<lambda>m. result m = js ''Win'') sub)) (length sub))"
    by (simp_all add: session_stats_def Let_def)
  have c: "\<forall>w n. rate w n =
      (if n = 0 then 0
       else fl (of_int \<lfloor>fl (fl (of_nat w / of_nat n) * 1000) + 1 / 2\<rfloor> / 10))"
    by (simp add: rate_def math_round_def js_div_def js_mul_def)
  have d: "\<forall>w n. 0 < n \<and> w \<le> n \<and> 2 powi (- 42) \<le> tie_gap w n \<longrightarrow>
      rate w n = fl (of_int (exact_round w n) / 10)"
    using rate_exact by (simp add: js_div_def)
  have e: "currentPoints (session_stats s) =
     (if matches s = [] then pointsStart s else pointsAfter (last (matches s)))"
    "peakPoints (session_stats s) = Max (insert (pointsStart s) (pointsAfter ` set (matches s)))"
    by (simp_all add: session_stats_def Let_def math_max_Max last_conv_nth)
  have "rate 1 3 = fl (333 / 10)"
    using rate_exact[of 3 1] by (simp add: tie_gap_1_3 exact_round_1_3 js_div_def)
  then have f: "total (session_stats s) = 3 \<and> wins (session_stats s) = 1 \<longrightarrow>
      winRate (session_stats s) = fl (333 / 10)"
    using a(4) by simp
  show ?thesis
    by (intro conjI a b c d e f)
qed

theorem session_aggregate_stats_witness:
  "total (session_stats wll_session) = 3 \<and> wins (session_stats wll_session) = 1 \<and>
   losses (session_stats wll_session) = 2 \<and>
   (0::nat) < 3 \<and> (1::nat) \<le> 3 \<and> 2 powi (- 42) \<le> tie_gap 1 3 \<and> exact_round 1 3 = 333 \<and>
   winRate (session_stats wll_session) = fl (333 / 10) \<and>
   winRate1st (session_stats wll_session) = fl (333 / 10) \<and>
   winRate2nd (session_stats wll_session) = 0 \<and>
   currentPoints (session_stats wll_session) = 1493 \<and>
   peakPoints (session_stats wll_session) = 1507"
proof -
  note th = session_aggregate_stats[of wll_session]
  have m: "map pointsAfter (matches wll_session) = [1507, 1500, 1493]"
    "map result (matches wll_session) = [js ''Win'', js ''Loss'', js ''Loss'']"
    "map turn (matches wll_session) = [js ''1st'', js ''1st'', js ''1st'']"
    by (simp_all add: stats_defs)
  have t: "total (session_stats wll_session) = 3" "wins (session_stats wll_session) = 1"
    "losses (session_stats wll_session) = 2" "winRate2nd (session_stats wll_session) = 0"
    "currentPoints (session_stats wll_session) = 1493"
    "peakPoints (session_stats wll_session) = 1507"
    by (simp_all add: session_stats_def Let_def rate_def math_max_def stats_defs)
  have w1: "winRate1st (session_stats wll_session) = winRate (session_stats wll_session)"
    by (simp add: session_stats_def Let_def stats_defs)
  have g: "2 powi (- 42) \<le> tie_gap 1 3"
    by (simp add: tie_gap_1_3)
  have "rate 1 3 = fl (of_int (exact_round 1 3) / 10)"
    using th[THEN conjunct2, THEN conjunct2, THEN conjunct2, THEN conjunct2, THEN conjunct2,
        THEN conjunct2, THEN conjunct2, THEN conjunct1, rule_format, of 3 1] g
    by simp
  moreover have "winRate (session_stats wll_session) = rate 1 3"
    using th[THEN conjunct2, THEN conjunct2, THEN conjunct2, THEN conjunct1] t(1,2) by simp
  ultimately have w: "winRate (session_stats wll_session) = fl (333 / 10)"
    by (simp add: exact_round_1_3)
  show ?thesis
    using t w w1 g exact_round_1_3 by simp
qed

text \<open>
  With \<open>round(wins / total * 1000) / 10\<close> taken in exact arithmetic the win rate
  fails: after 201 wins and 199 losses the product is the double just below 502.5, and
  the win rate is 50.2 where the exact formula gives 50.3.
\<close>

theorem session_aggregate_stats_counterexample:
  "reachable long_session \<and>
   total (session_stats long_session) = 400 \<and> wins (session_stats long_session) = 201 \<and>
   round (201 / 400 * 1000 :: rat) = 503 \<and>
   winRate (session_stats long_session) = fl (502 / 10) \<and>
   winRate (session_stats long_session) \<noteq> 503 / 10 \<and>
   winRate (session_stats long_session) \<noteq> fl (503 / 10)"
proof -
  have r: "reachable long_session"
    unfolding long_session_def by (intro play_reachable reachable_new)
  have t: "total (session_stats long_session) = 400" "wins (session_stats long_session) = 201"
    by (simp_all add: session_stats_def Let_def long_session_counts)
  have w: "winRate (session_stats long_session) = fl (502 / 10)"
    using rate_201_400 by (simp add: session_stats_def Let_def long_session_counts)
  have "\<lfloor>(201 / 400 * 1000 + 1 / 2 :: rat)\<rfloor> = 503"
    by (rule floor_unique) simp_all
  then have x: "round (201 / 400 * 1000 :: rat) = 503"
    by (simp add: round_def)
  have n: "fl (502 / 10) \<noteq> 503 / 10" "fl (502 / 10) \<noteq> fl (503 / 10)"
    unfolding fl_502_10 fl_503_10 by simp_all
  show ?thesis
    using r t w x n by simp
qed

text \<open>
  C10 (an override cannot be removed by an edit). For a reachable session: an edit whose
  payload omits \<open>customPointsAfter\<close> leaves the override field of every match, the
  target included, as it was; after any successful edit a match that had an override
  still has one (its own unless the edit replaced it on the target) and its
  \<open>pointsAfter\<close> equals it; in every reachable session a match with an override has
  \<open>pointsAfter\<close> equal to it; appending keeps all overrides, and deleting keeps the
  overrides of the matches that remain. Only deleting the match or clearing the session
  drops an override.
\<close>

theorem override_irremovable:
  assumes "reachable s"
  shows "(\<forall>i b s'. update_match i b s = Inr s' \<and> req_customPointsAfter b = None \<longrightarrow>
       map customPointsAfter (matches s') = map customPointsAfter (matches s)) \<and>
    (\<forall>i b s' j c. update_match i b s = Inr s' \<and> j < length (matches s) \<and>
         customPointsAfter (matches s ! j) = Some c \<longrightarrow>
       (\<exists>c'. customPointsAfter (matches s' ! j) = Some c' \<and> pointsAfter (matches s' ! j) = c' \<and>
          (j \<noteq> i \<longrightarrow> c' = c) \<and> (req_customPointsAfter b = None \<longrightarrow> c' = c))) \<and>
    (\<forall>j c. j < length (matches s) \<and> customPointsAfter (matches s ! j) = Some c \<longrightarrow>
       pointsAfter (matches s ! j) = c) \<and>
    map customPointsAfter (matches (add_match new_id d p res t custom s)) =
      map customPointsAfter (matches s) @ [custom] \<and>
    (\<forall>k. map customPointsAfter (matches (delete_match k s)) =
       splice1 k (map customPointsAfter (matches s)))"
proof -
  have pin: "pointsAfter (matches u ! j) = c"
    if "reachable u" "j < length (matches u)" "customPointsAfter (matches u ! j) = Some c" for u j c
  proof -
    have "pinned (matches u ! j)"
      using reachable_inv[OF that(1)] that(2) by (simp add: list_all_length)
    then show ?thesis using that(3) by (simp add: pinned_def)
  qed
  have a: "\<forall>i b s'. update_match i b s = Inr s' \<and> req_customPointsAfter b = None \<longrightarrow>
       map customPointsAfter (matches s') = map customPointsAfter (matches s)"
    using custom_update_None by blast
  have b: "\<exists>c'. customPointsAfter (matches s' ! j) = Some c' \<and> pointsAfter (matches s' ! j) = c' \<and>
          (j \<noteq> i \<longrightarrow> c' = c) \<and> (req_customPointsAfter b = None \<longrightarrow> c' = c)"
    if h: "update_match i b s = Inr s'" "j < length (matches s)"
      "customPointsAfter (matches s ! j) = Some c" for i b s' j c
  proof -
    obtain c' where c': "customPointsAfter (matches s' ! j) = Some c'"
      "j \<noteq> i \<longrightarrow> c' = c" "req_customPointsAfter b = None \<longrightarrow> c' = c"
      using custom_update_kept[OF h] by auto
    have "reachable s'" using assms h(1) by (rule reachable.edited)
    moreover have "j < length (matches s')"
      using h(2) update_match_frame(4)[OF h(1)] by simp
    ultimately have "pointsAfter (matches s' ! j) = c'" using c'(1) by (rule pin)
    with c' show ?thesis by auto
  qed
  have c: "\<forall>j c. j < length (matches s) \<and> customPointsAfter (matches s ! j) = Some c \<longrightarrow>
       pointsAfter (matches s ! j) = c"
    using pin[OF assms] by blast
  have d: "map customPointsAfter (matches (add_match new_id d p res t custom s)) =
      map customPointsAfter (matches s) @ [custom]"
    by (simp add: matchData_def)
  have b': "\<forall>i b s' j c. update_match i b s = Inr s' \<and> j < length (matches s) \<and>
         customPointsAfter (matches s ! j) = Some c \<longrightarrow>
       (\<exists>c'. customPointsAfter (matches s' ! j) = Some c' \<and> pointsAfter (matches s' ! j) = c' \<and>
          (j \<noteq> i \<longrightarrow> c' = c) \<and> (req_customPointsAfter b = None \<longrightarrow> c' = c))"
    using b by auto
  have e: "\<forall>k. map customPointsAfter (matches (delete_match k s)) =
       splice1 k (map customPointsAfter (matches s))"
    using custom_delete_match by simp
  show ?thesis
    by (intro conjI a b' c d e)
qed

theorem override_irremovable_witness:
  "reachable wlwo_session \<and> (3::nat) < length (matches wlwo_session) \<and>
   customPointsAfter (matches wlwo_session ! 3) = Some 2000 \<and>
   (\<exists>s'. update_match 3 \<lparr>req_deck = None, req_opp = None, req_result = Some (js ''Win''),
        req_turn = None, req_customPointsAfter = None\<rparr> wlwo_session = Inr s' \<and>
      result (matches s' ! 3) = js ''Win'' \<and>
      customPointsAfter (matches s' ! 3) = Some 2000 \<and> pointsAfter (matches s' ! 3) = 2000 \<and>
      map customPointsAfter (matches s') = map customPointsAfter (matches wlwo_session))"
proof -
  let ?b = "\<lparr>req_deck = None, req_opp = None, req_result = Some (js ''Win''),
        req_turn = None, req_customPointsAfter = None\<rparr>"
  have l: "(3::nat) < length (matches wlwo_session)"
    "customPointsAfter (matches wlwo_session ! 3) = Some 2000"
    by (simp_all add: eval_defs)
  obtain s' where s': "update_match 3 ?b wlwo_session = Inr s'"
    using update_match_None[of 3 wlwo_session ?b] l(1) by simp
  have r: "result (matches s' ! 3) = js ''Win''"
    using update_match_at[OF s'] by (simp add: result_set_fields assign_def)
  note th = override_irremovable[OF reachable_wlwo, of 0 "[]" "[]" "[]" "[]" None]
  have "\<exists>c'. customPointsAfter (matches s' ! 3) = Some c' \<and> pointsAfter (matches s' ! 3) = c' \<and>
      (3 \<noteq> (3::nat) \<longrightarrow> c' = 2000) \<and> (req_customPointsAfter ?b = None \<longrightarrow> c' = 2000)"
    using th[THEN conjunct2, THEN conjunct1, rule_format, of 3 ?b s' 3 2000] s' l by simp
  then have c: "customPointsAfter (matches s' ! 3) = Some 2000" "pointsAfter (matches s' ! 3) = 2000"
    by auto
  have m: "map customPointsAfter (matches s') = map customPointsAfter (matches wlwo_session)"
    using th[THEN conjunct1, rule_format, of 3 ?b s'] s' by simp
  show ?thesis
    using reachable_wlwo l s' r c m by simp
qed

end
